theory Spec2Isabelle
  imports Complex_Main "HOL-Library.Signed_Division"
begin

section \<open>Data model of the particle filter (pf.c, map.h)\<close>

text \<open>
  The C \<open>int\<close> is read as a mathematical integer and a finite C \<open>double\<close> as a
  real number; the rounding of double arithmetic is not part of this embedding, except
  in the sections on the double arithmetic of the sensor update and of the resample
  limit. The results of double
  arithmetic that are not finite numbers, and the conversion \<open>(int)\<close> of a double,
  are modelled in the section on the resample limit. Integer division and remainder of
  C truncate towards zero (\<open>sdiv\<close>, \<open>smod\<close>). An access outside an array, a
  failed \<open>assert\<close> and an integer division by zero end the run with a \<open>fault\<close>; a
  loop that never ends is the outcome \<open>Diverges\<close>.
\<close>

datatype fault = Assert_failed | Out_of_bounds | Div_by_zero

datatype 'a outcome = Done 'a | Fault fault | Diverges

definition bind :: "'a outcome \<Rightarrow> ('a \<Rightarrow> 'b outcome) \<Rightarrow> 'b outcome" where
  "bind m f = (case m of Done x \<Rightarrow> f x | Fault e \<Rightarrow> Fault e | Diverges \<Rightarrow> Diverges)"

text \<open>\<open>pf_vector_t\<close>: the three components \<open>v[0]\<close>, \<open>v[1]\<close>, \<open>v[2]\<close>.\<close>

record pf_vector =
  v0 :: real
  v1 :: real
  v2 :: real

text \<open>\<open>pf_matrix_t\<close>: \<open>m[i][j]\<close> is \<open>m i j\<close>.\<close>

type_synonym pf_matrix = "nat \<Rightarrow> nat \<Rightarrow> real"

definition pf_vector_zero :: pf_vector where
  "pf_vector_zero = \<lparr>v0 = 0, v1 = 0, v2 = 0\<rparr>"

definition pf_matrix_zero :: pf_matrix where
  "pf_matrix_zero = (\<lambda>i j. 0)"

record pf_sample =
  pose :: pf_vector
  weight :: real

text \<open>\<open>pf_cluster_t\<close>; the fields carry the prefix \<open>cl_\<close> because \<open>weight\<close> is
  also a field of a sample.\<close>

record pf_cluster =
  cl_count :: int
  cl_weight :: real
  cl_mean :: pf_vector
  cl_cov :: pf_matrix
  cl_m :: "nat \<Rightarrow> real"
  cl_c :: "nat \<Rightarrow> nat \<Rightarrow> real"

text \<open>\<open>pf_sample_set_t\<close>. The kd-tree is code outside this file of the repository:
  its state is a value of an arbitrary type \<open>'k\<close>.\<close>

record 'k pf_sample_set =
  sample_count :: int
  samples :: "pf_sample list"
  kdtree :: 'k
  cluster_count :: int
  cluster_max_count :: int
  clusters :: "pf_cluster list"

text \<open>\<open>pf_t\<close>; \<open>sets\<close> is the array of the two sample sets, read at the indices
  \<open>current_set\<close> and \<open>(current_set + 1) % 2\<close>.\<close>

record 'k pf =
  min_samples :: int
  max_samples :: int
  overHead_samples :: int
  pop_err :: real
  pop_z :: real
  current_set :: int
  sets :: "int \<Rightarrow> 'k pf_sample_set"
  sumSquareWeights :: real

text \<open>\<open>map_cell_t\<close> and \<open>map_t\<close> (map.h), with the fields the filter reads.\<close>

record map_cell =
  occ_state :: int

record map_t =
  origin_x :: real
  origin_y :: real
  scale :: real
  size_x :: int
  size_y :: int
  cells :: "int \<Rightarrow> map_cell"

section \<open>The KLD resample limit\<close>

text \<open>
  The three limit functions divide by \<open>9 * (k - 1)\<close> and by a multiple of \<open>pop_err\<close>,
  take a square root, and convert the result with \<open>(int) ceil(...)\<close>. In double
  arithmetic a division by 0 gives an infinity or NaN and the square root of a negative
  number gives NaN; every sum and product that follows (also a product with 0) is
  again an infinity or NaN. A \<open>double\<close> of these functions is therefore a
  \<open>real option\<close>, where \<open>None\<close> stands for every value that is not a finite number.
  The conversion \<open>(int)\<close> of a double that is not finite, or whose value lies outside
  the range of \<open>int\<close>, is undefined in C; the conversion instruction of x86-64
  returns \<open>INT_MIN\<close> there, and so does \<open>int_of_ceil\<close>.
\<close>

type_synonym double = "real option"

definition INT_MIN :: int where
  "INT_MIN = - 2147483648"

definition INT_MAX :: int where
  "INT_MAX = 2147483647"

definition fadd :: "double \<Rightarrow> double \<Rightarrow> double" where
  "fadd u v = (case (u, v) of (Some a, Some b) \<Rightarrow> Some (a + b) | _ \<Rightarrow> None)"

definition fsub :: "double \<Rightarrow> double \<Rightarrow> double" where
  "fsub u v = (case (u, v) of (Some a, Some b) \<Rightarrow> Some (a - b) | _ \<Rightarrow> None)"

definition fmul :: "double \<Rightarrow> double \<Rightarrow> double" where
  "fmul u v = (case (u, v) of (Some a, Some b) \<Rightarrow> Some (a * b) | _ \<Rightarrow> None)"

definition fdiv :: "double \<Rightarrow> double \<Rightarrow> double" where
  "fdiv u v = (case (u, v) of (Some a, Some b) \<Rightarrow> if b = 0 then None else Some (a / b) | _ \<Rightarrow> None)"

definition fsqrt :: "double \<Rightarrow> double" where
  "fsqrt u = (case u of Some a \<Rightarrow> if a < 0 then None else Some (sqrt a) | None \<Rightarrow> None)"

text \<open>The conversion \<open>(int)\<close> of a double whose value is the integer \<open>t\<close>, and
  \<open>(int) ceil(v)\<close>.\<close>

definition int_conv :: "int \<Rightarrow> int" where
  "int_conv t = (if INT_MIN \<le> t \<and> t \<le> INT_MAX then t else INT_MIN)"

definition int_of_ceil :: "double \<Rightarrow> int" where
  "int_of_ceil v = (case v of None \<Rightarrow> INT_MIN | Some t \<Rightarrow> int_conv \<lceil>t\<rceil>)"

definition pf_resample_limit :: "'k pf \<Rightarrow> int \<Rightarrow> int" where
  "pf_resample_limit pf k =
     (if k \<le> 1 then min_samples pf
      else
        let a = Some 1;
            b = fdiv (Some 2) (Some (9 * (real_of_int k - 1)));
            c = fmul (fsqrt (fdiv (Some 2) (Some (9 * (real_of_int k - 1))))) (Some (pop_z pf));
            x = fadd (fsub a b) c;
            n = int_of_ceil
                  (fmul (fmul (fmul (fdiv (Some (real_of_int (k - 1))) (Some (2 * pop_err pf))) x) x) x)
        in if n < min_samples pf then min_samples pf
           else if n \<ge> max_samples pf then max_samples pf
           else n)"

text \<open>\<open>pf_resample_limit_2\<close> has neither the test \<open>k \<le> 1\<close> nor the clamps: for
  \<open>k = 1\<close> it divides by 0 and for \<open>k < 1\<close> it takes the square root of a negative
  number, so that it returns \<open>INT_MIN\<close> for every \<open>k \<le> 1\<close>.\<close>

definition pf_resample_limit_2 :: "'k pf \<Rightarrow> int \<Rightarrow> int" where
  "pf_resample_limit_2 pf k =
     (let a = Some 1;
          b = fdiv (Some 2) (Some (9 * (real_of_int k - 1)));
          c = fmul (fsqrt (fdiv (Some 2) (Some (9 * (real_of_int k - 1))))) (Some (pop_z pf));
          x = fadd (fsub a b) c
      in int_of_ceil
           (fmul (fmul (fmul (fdiv (Some (real_of_int (k - 1))) (Some (5 * 2 * pop_err pf))) x) x) x))"

definition pf_resample_limit_hyps :: "'k pf \<Rightarrow> int \<Rightarrow> real \<Rightarrow> real \<Rightarrow> int" where
  "pf_resample_limit_hyps pf k popz poperr =
     (if k \<le> 1 then min_samples pf
      else
        let a = Some 1;
            b = fdiv (Some 2) (Some (9 * (real_of_int k - 1)));
            c = fmul (fsqrt (fdiv (Some 2) (Some (9 * (real_of_int k - 1))))) (Some popz);
            x = fadd (fsub a b) c;
            n = int_of_ceil
                  (fmul (fmul (fmul (fdiv (Some (real_of_int (k - 1))) (Some (2 * poperr))) x) x) x)
        in if n < min_samples pf then min_samples pf
           else if n \<ge> max_samples pf then max_samples pf
           else n)"

text \<open>The bound as section 4.5 of the specification writes it: the formula of Fox,
  before any clamping; \<open>fox_value\<close> is its value over the reals and \<open>fox_bound\<close>
  the ceiling of that value.\<close>

definition fox_value :: "real \<Rightarrow> real \<Rightarrow> int \<Rightarrow> real" where
  "fox_value err z k =
     real_of_int (k - 1) / (2 * err)
       * (1 - 2 / (9 * real_of_int (k - 1)) + sqrt (2 / (9 * real_of_int (k - 1))) * z) ^ 3"

definition fox_bound :: "real \<Rightarrow> real \<Rightarrow> int \<Rightarrow> int" where
  "fox_bound err z k = \<lceil>fox_value err z k\<rceil>"

text \<open>The limit as the specification states it: \<open>min_samples\<close> for \<open>k \<le> 1\<close>,
  otherwise the bound of Fox clamped below by \<open>min_samples\<close>, and \<open>max_samples\<close>
  whenever that value reaches \<open>max_samples\<close>.\<close>

definition clamp_spec :: "'k pf \<Rightarrow> int \<Rightarrow> int" where
  "clamp_spec pf n =
     (let v = max n (min_samples pf) in if v \<ge> max_samples pf then max_samples pf else v)"

definition kld_limit_spec :: "'k pf \<Rightarrow> int \<Rightarrow> int" where
  "kld_limit_spec pf k =
     (if k \<le> 1 then min_samples pf
      else clamp_spec pf (fox_bound (pop_err pf) (pop_z pf) k))"

text \<open>The two final tests of \<open>pf_resample_limit\<close>, and the factor \<open>x\<close> of its
  formula as a function of \<open>k - 1\<close>; both serve the proofs only.\<close>

definition clamp_samples :: "'k pf \<Rightarrow> int \<Rightarrow> int" where
  "clamp_samples pf n =
     (if n < min_samples pf then min_samples pf
      else if n \<ge> max_samples pf then max_samples pf
      else n)"

definition kld_x :: "real \<Rightarrow> real \<Rightarrow> real" where
  "kld_x z m = 1 - 2 / (9 * m) + sqrt (2 / (9 * m)) * z"

section \<open>External collaborators\<close>

text \<open>
  The kd-tree (\<open>pf_kdtree.c\<close>), the samplers of \<open>pf_pdf.c\<close> and the GSL random
  number generator are not part of the file embedded here. They are parameters: a
  record of functions over a kd-tree state \<open>'k\<close> and a generator state \<open>'r\<close>, so
  that every theorem holds for every histogram and every random stream.
  \<open>pf_pdf_discrete_sample\<close> receives the table of weights the distribution was
  allocated with.
\<close>

record ('k, 'r) extern =
  pf_kdtree_clear :: "'k \<Rightarrow> 'k"
  pf_kdtree_insert :: "'k \<Rightarrow> pf_vector \<Rightarrow> real \<Rightarrow> 'k"
  leaf_count :: "'k \<Rightarrow> int"
  pf_kdtree_cluster :: "'k \<Rightarrow> 'k"
  pf_kdtree_get_cluster :: "'k \<Rightarrow> pf_vector \<Rightarrow> int"
  gsl_rng_uniform_pos :: "'r \<Rightarrow> real \<times> 'r"
  gsl_rng_uniform :: "'r \<Rightarrow> real \<times> 'r"
  gsl_ran_bivariate_gaussian :: "'r \<Rightarrow> real \<Rightarrow> real \<Rightarrow> real \<Rightarrow> (real \<times> real) \<times> 'r"
  pf_pdf_discrete_sample :: "real list \<Rightarrow> 'r \<Rightarrow> int \<times> 'r"
  pf_pdf_gaussian_sample :: "pf_vector \<Rightarrow> pf_matrix \<Rightarrow> 'r \<Rightarrow> pf_vector \<times> 'r"

text \<open>\<open>hyp_t\<close>, with the two fields the resamplers read.\<close>

record hyp_t =
  pf_pose_mean :: pf_vector
  pf_pose_cov :: pf_matrix

section \<open>Map macros (map.h)\<close>

definition MAP_GXWX :: "map_t \<Rightarrow> real \<Rightarrow> int" where
  "MAP_GXWX mp x = \<lfloor>(x - origin_x mp) / scale mp + 1 / 2\<rfloor> + size_x mp sdiv 2"

definition MAP_GYWY :: "map_t \<Rightarrow> real \<Rightarrow> int" where
  "MAP_GYWY mp y = \<lfloor>(y - origin_y mp) / scale mp + 1 / 2\<rfloor> + size_y mp sdiv 2"

definition MAP_VALID :: "map_t \<Rightarrow> int \<Rightarrow> int \<Rightarrow> bool" where
  "MAP_VALID mp i j \<longleftrightarrow> i \<ge> 0 \<and> i < size_x mp \<and> j \<ge> 0 \<and> j < size_y mp"

definition MAP_INDEX :: "map_t \<Rightarrow> int \<Rightarrow> int \<Rightarrow> int" where
  "MAP_INDEX mp i j = i + j * size_x mp"

text \<open>The test that sets \<open>correct = 1\<close> in the map-constrained samplers: the cell of
  the pose is inside the map and free.\<close>

definition free_cell :: "map_t \<Rightarrow> pf_vector \<Rightarrow> bool" where
  "free_cell mp tmp =
     (let ix = MAP_GXWX mp (v0 tmp); iy = MAP_GYWY mp (v1 tmp)
      in MAP_VALID mp ix iy \<and> occ_state (cells mp (MAP_INDEX mp ix iy)) = - 1)"

text \<open>The weaker test of \<open>pf_init_to_point\<close>: inside the map only.\<close>

definition valid_cell :: "map_t \<Rightarrow> pf_vector \<Rightarrow> bool" where
  "valid_cell mp tmp =
     (let ix = MAP_GXWX mp (v0 tmp); iy = MAP_GYWY mp (v1 tmp)
      in MAP_VALID mp ix iy)"

section \<open>Loops and sample buffers\<close>

text \<open>\<open>for (i = 0; i < n; i++) body\<close> is \<open>for_each [0..<nat n] body\<close>: the body runs
  on every index in turn and a fault or a divergence ends the loop.\<close>

fun for_each :: "'i list \<Rightarrow> ('i \<Rightarrow> 's \<Rightarrow> 's outcome) \<Rightarrow> 's \<Rightarrow> 's outcome" where
  "for_each [] body s = Done s"
| "for_each (i # is) body s = bind (body i s) (for_each is body)"

text \<open>\<open>do { tmp = draw(); } while (!correct)\<close>: the rejection loop of the
  map-constrained samplers. It ends at the first accepted draw and never ends if no
  draw is accepted.\<close>

partial_function (option) do_while ::
  "('r \<Rightarrow> pf_vector \<times> 'r) \<Rightarrow> (pf_vector \<Rightarrow> bool) \<Rightarrow> 'r \<Rightarrow> (pf_vector \<times> 'r) option" where
  "do_while draw correct r =
     (case draw r of (tmp, r') \<Rightarrow>
        if correct tmp then Some (tmp, r') else do_while draw correct r')"

definition run_do_while ::
  "('r \<Rightarrow> pf_vector \<times> 'r) \<Rightarrow> (pf_vector \<Rightarrow> bool) \<Rightarrow> 'r \<Rightarrow> (pf_vector \<times> 'r) outcome" where
  "run_do_while draw correct r =
     (case do_while draw correct r of None \<Rightarrow> Diverges | Some res \<Rightarrow> Done res)"

text \<open>The candidate poses of the samplers. \<open>draw_map_zero\<close> is the one of
  \<open>pf_init_map\<close> (heading 0), \<open>draw_map\<close> the one of \<open>pf_update_resample_map\<close> and
  \<open>pf_update_resample_addParticle\<close>, \<open>draw_point\<close> the one of \<open>pf_init_to_point\<close>.\<close>

definition draw_map_zero :: "('k, 'r) extern \<Rightarrow> map_t \<Rightarrow> 'r \<Rightarrow> pf_vector \<times> 'r" where
  "draw_map_zero E mp r =
     (let (u0, r1) = gsl_rng_uniform_pos E r;
          (u1, r2) = gsl_rng_uniform_pos E r1
      in (\<lparr>v0 = (u0 - 1 / 2) * real_of_int (size_x mp) * scale mp,
           v1 = (u1 - 1 / 2) * real_of_int (size_y mp) * scale mp,
           v2 = 0\<rparr>, r2))"

definition draw_map :: "('k, 'r) extern \<Rightarrow> map_t \<Rightarrow> 'r \<Rightarrow> pf_vector \<times> 'r" where
  "draw_map E mp r =
     (let (u0, r1) = gsl_rng_uniform_pos E r;
          (u1, r2) = gsl_rng_uniform_pos E r1;
          (u2, r3) = gsl_rng_uniform E r2
      in (\<lparr>v0 = (u0 - 1 / 2) * real_of_int (size_x mp) * scale mp,
           v1 = (u1 - 1 / 2) * real_of_int (size_y mp) * scale mp,
           v2 = (u2 - 1 / 2) * 2 * pi\<rparr>, r3))"

definition draw_point :: "('k, 'r) extern \<Rightarrow> real \<Rightarrow> real \<Rightarrow> real \<Rightarrow> 'r \<Rightarrow> pf_vector \<times> 'r" where
  "draw_point E x y var r =
     (let (u0, r1) = gsl_rng_uniform_pos E r;
          (u1, r2) = gsl_rng_uniform_pos E r1;
          (u2, r3) = gsl_rng_uniform E r2
      in (\<lparr>v0 = (u0 - 1 / 2) * var + x,
           v1 = (u1 - 1 / 2) * var + y,
           v2 = (u2 - 1 / 2) * 2 * pi\<rparr>, r3))"

text \<open>The candidate drawn around a hypothesis: \<open>draw_hyp\<close> in
  \<open>pf_update_resample_hyps\<close> and \<open>pf_update_resample_hyps_2\<close> (uniform heading),
  \<open>draw_hyp_zero\<close> in \<open>pf_update_resample_hyps_3\<close> (heading 0).\<close>

definition draw_hyp :: "('k, 'r) extern \<Rightarrow> hyp_t \<Rightarrow> 'r \<Rightarrow> pf_vector \<times> 'r" where
  "draw_hyp E h r =
     (let rho = pf_pose_cov h 0 1 / (pf_pose_cov h 0 0 * pf_pose_cov h 1 1);
          ((gx, gy), r1) = gsl_ran_bivariate_gaussian E r (pf_pose_cov h 0 0) (pf_pose_cov h 1 1) rho;
          (u, r2) = gsl_rng_uniform E r1
      in (\<lparr>v0 = gx + v0 (pf_pose_mean h),
           v1 = gy + v1 (pf_pose_mean h),
           v2 = (u - 1 / 2) * 2 * pi\<rparr>, r2))"

definition draw_hyp_zero :: "('k, 'r) extern \<Rightarrow> hyp_t \<Rightarrow> 'r \<Rightarrow> pf_vector \<times> 'r" where
  "draw_hyp_zero E h r =
     (let rho = pf_pose_cov h 0 1 / (pf_pose_cov h 0 0 * pf_pose_cov h 1 1);
          ((gx, gy), r1) = gsl_ran_bivariate_gaussian E r (pf_pose_cov h 0 0) (pf_pose_cov h 1 1) rho
      in (\<lparr>v0 = gx + v0 (pf_pose_mean h),
           v1 = gy + v1 (pf_pose_mean h),
           v2 = 0\<rparr>, r1))"

text \<open>\<open>sample = set->samples + set->sample_count++\<close> followed by the assignment of
  pose and weight: the slot must lie inside the buffer.\<close>

definition slot_ok :: "'k pf_sample_set \<Rightarrow> bool" where
  "slot_ok s \<longleftrightarrow> 0 \<le> sample_count s \<and> sample_count s < int (length (samples s))"

definition push_sample :: "'k pf_sample_set \<Rightarrow> pf_vector \<Rightarrow> real \<Rightarrow> 'k pf_sample_set outcome" where
  "push_sample s p w =
     (if slot_ok s
      then Done (s\<lparr>samples := (samples s)[nat (sample_count s) := \<lparr>pose = p, weight = w\<rparr>],
                  sample_count := sample_count s + 1\<rparr>)
      else Fault Out_of_bounds)"

text \<open>The same, followed by \<open>pf_kdtree_insert\<close> of the new sample.\<close>

definition add_sample ::
  "('k, 'r) extern \<Rightarrow> 'k pf_sample_set \<Rightarrow> pf_vector \<Rightarrow> real \<Rightarrow> 'k pf_sample_set outcome" where
  "add_sample E s p w =
     bind (push_sample s p w)
       (\<lambda>s'. Done (s'\<lparr>kdtree := pf_kdtree_insert E (kdtree s') p w\<rparr>))"

text \<open>\<open>for (i = 0; i < set->sample_count; i++) set->samples[i].weight /= d\<close>.\<close>

definition scale_weight :: "real \<Rightarrow> nat \<Rightarrow> 'k pf_sample_set \<Rightarrow> 'k pf_sample_set outcome" where
  "scale_weight d i s =
     (if i < length (samples s)
      then Done (s\<lparr>samples := (samples s)[i := (samples s ! i)\<lparr>weight := weight (samples s ! i) / d\<rparr>]\<rparr>)
      else Fault Out_of_bounds)"

definition normalize_weights :: "'k pf_sample_set \<Rightarrow> real \<Rightarrow> 'k pf_sample_set outcome" where
  "normalize_weights s d = for_each [0..<nat (sample_count s)] (scale_weight d) s"

text \<open>The table of weights a discrete distribution is allocated with.\<close>

definition randlist_of :: "'k pf_sample_set \<Rightarrow> real list" where
  "randlist_of s = map weight (take (nat (sample_count s)) (samples s))"

section \<open>Cluster statistics\<close>

text \<open>\<open>atan2\<close> of the C library, over the reals.\<close>

definition atan2 :: "real \<Rightarrow> real \<Rightarrow> real" where
  "atan2 y x =
     (if 0 < x then arctan (y / x)
      else if x < 0 then (if 0 \<le> y then arctan (y / x) + pi else arctan (y / x) - pi)
      else if 0 < y then pi / 2
      else if y < 0 then - (pi / 2)
      else 0)"

definition v_at :: "pf_vector \<Rightarrow> nat \<Rightarrow> real" where
  "v_at p j = (if j = 0 then v0 p else if j = 1 then v1 p else v2 p)"

definition cluster_zero :: pf_cluster where
  "cluster_zero = \<lparr>cl_count = 0, cl_weight = 0, cl_mean = pf_vector_zero,
                    cl_cov = pf_matrix_zero, cl_m = (\<lambda>j. 0), cl_c = (\<lambda>j k. 0)\<rparr>"

definition cluster_reset :: "nat \<Rightarrow> 'k pf_sample_set \<Rightarrow> 'k pf_sample_set outcome" where
  "cluster_reset i s =
     (if i < length (clusters s)
      then Done (s\<lparr>clusters := (clusters s)[i := cluster_zero]\<rparr>)
      else Fault Out_of_bounds)"

definition cluster_add :: "pf_sample \<Rightarrow> pf_cluster \<Rightarrow> pf_cluster" where
  "cluster_add sample cluster =
     cluster\<lparr>cl_count := cl_count cluster + 1,
             cl_weight := cl_weight cluster + weight sample,
             cl_m := (\<lambda>j. cl_m cluster j +
                        (if j = 0 then weight sample * v0 (pose sample)
                         else if j = 1 then weight sample * v1 (pose sample)
                         else if j = 2 then weight sample * cos (v2 (pose sample))
                         else if j = 3 then weight sample * sin (v2 (pose sample))
                         else 0)),
             cl_c := (\<lambda>j k. cl_c cluster j k +
                        (if j < 2 \<and> k < 2
                         then weight sample * v_at (pose sample) j * v_at (pose sample) k
                         else 0))\<rparr>"

definition cluster_accum ::
  "('k, 'r) extern \<Rightarrow> nat \<Rightarrow> 'k pf_sample_set \<Rightarrow> 'k pf_sample_set outcome" where
  "cluster_accum E i s =
     (if i < length (samples s) then
        let sample = samples s ! i;
            c = pf_kdtree_get_cluster E (kdtree s) (pose sample)
        in if \<not> c \<ge> 0 then Fault Assert_failed
           else if c \<ge> cluster_max_count s then Done s
           else if nat c < length (clusters s) then
             let s' = (if c + 1 > cluster_count s then s\<lparr>cluster_count := c + 1\<rparr> else s)
             in Done (s'\<lparr>clusters := (clusters s')[nat c := cluster_add sample (clusters s' ! nat c)]\<rparr>)
           else Fault Out_of_bounds
      else Fault Out_of_bounds)"

text \<open>The last loop of \<open>pf_cluster_stats\<close>. For a cluster of weight 0 the quotients
  of the code are NaN, and for \<open>m[2] = m[3] = 0\<close> the logarithm is infinite: the mean
  and the covariance of such a cluster are not finite numbers, and the values they have
  here stand for nothing. No statement of this theory reads a mean or a covariance
  computed by this loop.\<close>

definition cluster_finish :: "pf_cluster \<Rightarrow> pf_cluster" where
  "cluster_finish cluster =
     (let mean = \<lparr>v0 = cl_m cluster 0 / cl_weight cluster,
                  v1 = cl_m cluster 1 / cl_weight cluster,
                  v2 = atan2 (cl_m cluster 3) (cl_m cluster 2)\<rparr>
      in cluster\<lparr>cl_mean := mean,
                 cl_cov := (\<lambda>j k.
                    if j < 2 \<and> k < 2
                    then cl_c cluster j k / cl_weight cluster - v_at mean j * v_at mean k
                    else if j = 2 \<and> k = 2
                    then - 2 * ln (sqrt (cl_m cluster 2 * cl_m cluster 2
                                         + cl_m cluster 3 * cl_m cluster 3))
                    else 0)\<rparr>)"

definition cluster_normalize :: "nat \<Rightarrow> 'k pf_sample_set \<Rightarrow> 'k pf_sample_set outcome" where
  "cluster_normalize i s =
     (if i < length (clusters s)
      then Done (s\<lparr>clusters := (clusters s)[i := cluster_finish (clusters s ! i)]\<rparr>)
      else Fault Out_of_bounds)"

definition pf_cluster_stats ::
  "('k, 'r) extern \<Rightarrow> 'k pf_sample_set \<Rightarrow> 'k pf_sample_set outcome" where
  "pf_cluster_stats E set0 =
     (let s0 = set0\<lparr>kdtree := pf_kdtree_cluster E (kdtree set0), cluster_count := 0\<rparr>
      in bind (for_each [0..<nat (cluster_max_count s0)] cluster_reset s0) (\<lambda>s1.
         bind (for_each [0..<nat (sample_count s1)] (cluster_accum E) s1) (\<lambda>s2.
         for_each [0..<nat (cluster_count s2)] cluster_normalize s2)))"

text \<open>\<open>pf_get_cluster_stats\<close>: the returned flag and, when the cluster is copied out,
  the values written to \<open>*weight\<close>, \<open>*mean\<close> and \<open>*cov\<close>. A label that passes the
  test and lies outside the cluster table is a read outside the array.\<close>

definition pf_get_cluster_stats ::
  "'k pf \<Rightarrow> int \<Rightarrow> (int \<times> (real \<times> pf_vector \<times> pf_matrix) option) outcome" where
  "pf_get_cluster_stats pf clabel =
     (let set0 = sets pf (current_set pf)
      in if clabel \<ge> cluster_count set0 then Done (0, None)
         else if 0 \<le> clabel \<and> clabel < int (length (clusters set0)) then
           let cluster = clusters set0 ! nat clabel
           in Done (1, Some (cl_weight cluster, cl_mean cluster, cl_cov cluster))
         else Fault Out_of_bounds)"

section \<open>Sensor update\<close>

text \<open>The sensor model is a callback that rewrites the set it is given and returns
  the total weight.\<close>

definition sensor_normalize ::
  "real \<Rightarrow> nat \<Rightarrow> 'k pf_sample_set \<times> real \<Rightarrow> ('k pf_sample_set \<times> real) outcome" where
  "sensor_normalize total_w i st =
     (case st of (s, squareWeightSum) \<Rightarrow>
        if i < length (samples s) then
          let w = weight (samples s ! i) / total_w
          in Done (s\<lparr>samples := (samples s)[i := (samples s ! i)\<lparr>weight := w\<rparr>]\<rparr>,
                   squareWeightSum + w\<^sup>2)
        else Fault Out_of_bounds)"

definition sensor_reset ::
  "nat \<Rightarrow> 'k pf_sample_set \<times> real \<Rightarrow> ('k pf_sample_set \<times> real) outcome" where
  "sensor_reset i st =
     (case st of (s, squareWeightSum) \<Rightarrow>
        if i < length (samples s) then
          let w = 1 / real_of_int (sample_count s)
          in Done (s\<lparr>samples := (samples s)[i := (samples s ! i)\<lparr>weight := w\<rparr>]\<rparr>,
                   squareWeightSum + w\<^sup>2)
        else Fault Out_of_bounds)"

definition pf_update_sensor ::
  "'k pf \<Rightarrow> ('k pf_sample_set \<Rightarrow> real \<times> 'k pf_sample_set) \<Rightarrow> ('k pf \<times> real) outcome" where
  "pf_update_sensor pf sensor_fn =
     (case sensor_fn (sets pf (current_set pf)) of (total_w, set1) \<Rightarrow>
        bind (if total_w > 0
              then for_each [0..<nat (sample_count set1)] (sensor_normalize total_w) (set1, 0)
              else for_each [0..<nat (sample_count set1)] sensor_reset (set1, 0))
          (\<lambda>(set2, squareWeightSum).
             Done (pf\<lparr>sets := (sets pf)(current_set pf := set2)\<rparr>, squareWeightSum)))"

section \<open>Double arithmetic of the sensor update\<close>

text \<open>
  The value \<open>pf_update_sensor\<close> returns is a sum of squares accumulated in double
  arithmetic. \<open>pf_update_sensor_rounded rnd\<close> is \<open>pf_update_sensor\<close> with the result of
  every double operation of its loops (the division, \<open>pow\<close>, the addition) passed
  through \<open>rnd\<close>; with the identity for \<open>rnd\<close> it is \<open>pf_update_sensor\<close>.
  \<open>round_double\<close> is the rounding of IEEE 754 binary64 to the nearest double, a tie
  going to the even significand: \<open>binade x\<close> is the exponent \<open>e\<close> with
  \<open>2^e \<le> x < 2^(e+1)\<close>, found by halving or doubling \<open>x\<close>, and the significand
  \<open>x / 2^e\<close> is rounded at 52 binary places. The exponent is not bounded: overflow and
  subnormal numbers are not modelled.
\<close>

definition round_even :: "real \<Rightarrow> int" where
  "round_even x =
     (let f = \<lfloor>x\<rfloor>
      in if x - real_of_int f < 1 / 2 then f
         else if 1 / 2 < x - real_of_int f then f + 1
         else if even f then f else f + 1)"

function binade :: "real \<Rightarrow> int" where
  "binade x =
     (if x \<le> 0 then 0
      else if 2 \<le> x then binade (x / 2) + 1
      else if x < 1 then binade (2 * x) - 1
      else 0)"
  by auto
termination
proof (relation "measure (\<lambda>x. nat \<bar>\<lfloor>log 2 x\<rfloor>\<bar>)")
  show "wf (measure (\<lambda>x. nat \<bar>\<lfloor>log 2 x\<rfloor>\<bar>))" by simp
next
  fix x :: real assume "\<not> x \<le> 0" and x: "2 \<le> x"
  have "log 2 (x / 2) = log 2 x - 1" using x by (simp add: log_divide)
  moreover have "1 \<le> log 2 x" using x by (simp add: le_log_iff)
  ultimately have "\<lfloor>log 2 (x / 2)\<rfloor> = \<lfloor>log 2 x\<rfloor> - 1" "1 \<le> \<lfloor>log 2 x\<rfloor>"
    by (simp_all add: le_floor_iff)
  then show "(x / 2, x) \<in> measure (\<lambda>x. nat \<bar>\<lfloor>log 2 x\<rfloor>\<bar>)" by simp
next
  fix x :: real assume p: "\<not> x \<le> 0" and "\<not> 2 \<le> x" and x: "x < 1"
  have "log 2 (2 * x) = 1 + log 2 x" using p by (simp add: log_mult)
  moreover have "log 2 x < 0" using p x by simp
  ultimately have "\<lfloor>log 2 (2 * x)\<rfloor> = \<lfloor>log 2 x\<rfloor> + 1" "\<lfloor>log 2 x\<rfloor> \<le> - 1"
    by (simp_all add: floor_le_iff)
  then show "(2 * x, x) \<in> measure (\<lambda>x. nat \<bar>\<lfloor>log 2 x\<rfloor>\<bar>)" by simp
qed

declare binade.simps [simp del]

definition pow2 :: "int \<Rightarrow> real" where
  "pow2 e = (if 0 \<le> e then 2 ^ nat e else 1 / 2 ^ nat (- e))"

definition round_double :: "real \<Rightarrow> real" where
  "round_double x =
     (if x = 0 then 0
      else let e = binade \<bar>x\<bar>
           in sgn x * real_of_int (round_even (\<bar>x\<bar> * pow2 (52 - e))) * pow2 (e - 52))"

definition sensor_normalize_rounded ::
  "(real \<Rightarrow> real) \<Rightarrow> real \<Rightarrow> nat \<Rightarrow> 'k pf_sample_set \<times> real \<Rightarrow> ('k pf_sample_set \<times> real) outcome" where
  "sensor_normalize_rounded rnd total_w i st =
     (case st of (s, squareWeightSum) \<Rightarrow>
        if i < length (samples s) then
          let w = rnd (weight (samples s ! i) / total_w)
          in Done (s\<lparr>samples := (samples s)[i := (samples s ! i)\<lparr>weight := w\<rparr>]\<rparr>,
                   rnd (squareWeightSum + rnd (w\<^sup>2)))
        else Fault Out_of_bounds)"

definition sensor_reset_rounded ::
  "(real \<Rightarrow> real) \<Rightarrow> nat \<Rightarrow> 'k pf_sample_set \<times> real \<Rightarrow> ('k pf_sample_set \<times> real) outcome" where
  "sensor_reset_rounded rnd i st =
     (case st of (s, squareWeightSum) \<Rightarrow>
        if i < length (samples s) then
          let w = rnd (1 / real_of_int (sample_count s))
          in Done (s\<lparr>samples := (samples s)[i := (samples s ! i)\<lparr>weight := w\<rparr>]\<rparr>,
                   rnd (squareWeightSum + rnd (w\<^sup>2)))
        else Fault Out_of_bounds)"

definition pf_update_sensor_rounded ::
  "(real \<Rightarrow> real) \<Rightarrow> 'k pf \<Rightarrow> ('k pf_sample_set \<Rightarrow> real \<times> 'k pf_sample_set)
     \<Rightarrow> ('k pf \<times> real) outcome" where
  "pf_update_sensor_rounded rnd pf sensor_fn =
     (case sensor_fn (sets pf (current_set pf)) of (total_w, set1) \<Rightarrow>
        bind (if total_w > 0
              then for_each [0..<nat (sample_count set1)] (sensor_normalize_rounded rnd total_w) (set1, 0)
              else for_each [0..<nat (sample_count set1)] (sensor_reset_rounded rnd) (set1, 0))
          (\<lambda>(set2, squareWeightSum).
             Done (pf\<lparr>sets := (sets pf)(current_set pf := set2)\<rparr>, squareWeightSum)))"

section \<open>Double arithmetic of the resample limit\<close>

text \<open>
  \<open>pf_resample_limit_rounded rnd\<close> is \<open>pf_resample_limit\<close> with the result of every
  double operation (the subtractions, products, quotients, the square root and the
  sum) passed through \<open>rnd\<close>; the conversion of the integers \<open>k\<close> and \<open>k - 1\<close> to
  \<open>double\<close> is exact. With the identity for \<open>rnd\<close> it is \<open>pf_resample_limit\<close>.
\<close>

definition fr :: "(real \<Rightarrow> real) \<Rightarrow> double \<Rightarrow> double" where
  "fr rnd v = map_option rnd v"

definition pf_resample_limit_rounded :: "(real \<Rightarrow> real) \<Rightarrow> 'k pf \<Rightarrow> int \<Rightarrow> int" where
  "pf_resample_limit_rounded rnd pf k =
     (if k \<le> 1 then min_samples pf
      else
        let a = Some 1;
            b = fr rnd (fdiv (Some 2)
                  (fr rnd (fmul (Some 9) (fr rnd (fsub (Some (real_of_int k)) (Some 1))))));
            c = fr rnd (fmul
                  (fr rnd (fsqrt (fr rnd (fdiv (Some 2)
                     (fr rnd (fmul (Some 9) (fr rnd (fsub (Some (real_of_int k)) (Some 1)))))))))
                  (Some (pop_z pf)));
            x = fr rnd (fadd (fr rnd (fsub a b)) c);
            n = int_of_ceil
                  (fr rnd (fmul (fr rnd (fmul (fr rnd (fmul
                     (fr rnd (fdiv (Some (real_of_int (k - 1)))
                                   (fr rnd (fmul (Some 2) (Some (pop_err pf))))))
                     x)) x)) x))
        in if n < min_samples pf then min_samples pf
           else if n \<ge> max_samples pf then max_samples pf
           else n)"

text \<open>\<open>rel_within l h y X\<close>: the computed value \<open>y\<close> lies within the factors \<open>l\<close> and
  \<open>h\<close> of the exact value \<open>X\<close>.\<close>

definition rel_within :: "real \<Rightarrow> real \<Rightarrow> real \<Rightarrow> real \<Rightarrow> bool" where
  "rel_within l h y X \<longleftrightarrow> X * l \<le> y \<and> y \<le> X * h"

section \<open>Initialization\<close>

text \<open>
  \<open>pf_init\<close>, \<open>pf_init_map\<close>, \<open>pf_init_model\<close> and \<open>pf_init_to_point\<close> are the
  same function up to the way a pose is drawn: clear the kd-tree of the current set,
  set \<open>sample_count\<close> to \<open>max_samples\<close>, give every sample the weight
  \<open>1.0 / max_samples\<close> and a drawn pose, insert it in the kd-tree, and recompute
  the cluster statistics. \<open>init_with\<close> is that function, \<open>init_sample\<close> the body of
  its loop.
\<close>

definition init_sample ::
  "('k, 'r) extern \<Rightarrow> 'k pf \<Rightarrow> ('r \<Rightarrow> (pf_vector \<times> 'r) outcome) \<Rightarrow> nat
     \<Rightarrow> 'k pf_sample_set \<times> 'r \<Rightarrow> ('k pf_sample_set \<times> 'r) outcome" where
  "init_sample E pf draw i st =
     (case st of (s, r) \<Rightarrow>
        if i < length (samples s) then
          bind (draw r) (\<lambda>(p, r').
            let w = 1 / real_of_int (max_samples pf)
            in Done (s\<lparr>samples := (samples s)[i := \<lparr>pose = p, weight = w\<rparr>],
                       kdtree := pf_kdtree_insert E (kdtree s) p w\<rparr>, r'))
        else Fault Out_of_bounds)"

definition init_with ::
  "('k, 'r) extern \<Rightarrow> 'k pf \<Rightarrow> ('r \<Rightarrow> (pf_vector \<times> 'r) outcome) \<Rightarrow> 'r \<Rightarrow> 'k pf outcome" where
  "init_with E pf draw r =
     (let set0 = sets pf (current_set pf);
          set1 = set0\<lparr>kdtree := pf_kdtree_clear E (kdtree set0), sample_count := max_samples pf\<rparr>
      in bind (for_each [0..<nat (sample_count set1)] (init_sample E pf draw) (set1, r))
           (\<lambda>(set2, r').
              bind (pf_cluster_stats E set2)
                (\<lambda>set3. Done (pf\<lparr>sets := (sets pf)(current_set pf := set3)\<rparr>))))"

definition pf_init ::
  "('k, 'r) extern \<Rightarrow> 'k pf \<Rightarrow> pf_vector \<Rightarrow> pf_matrix \<Rightarrow> 'r \<Rightarrow> 'k pf outcome" where
  "pf_init E pf mean cov r = init_with E pf (\<lambda>r. Done (pf_pdf_gaussian_sample E mean cov r)) r"

definition pf_init_map :: "('k, 'r) extern \<Rightarrow> 'k pf \<Rightarrow> map_t \<Rightarrow> 'r \<Rightarrow> 'k pf outcome" where
  "pf_init_map E pf mp r = init_with E pf (run_do_while (draw_map_zero E mp) (free_cell mp)) r"

definition pf_init_model ::
  "('k, 'r) extern \<Rightarrow> 'k pf \<Rightarrow> ('r \<Rightarrow> pf_vector \<times> 'r) \<Rightarrow> 'r \<Rightarrow> 'k pf outcome" where
  "pf_init_model E pf init_fn r = init_with E pf (\<lambda>r. Done (init_fn r)) r"

definition pf_init_to_point ::
  "('k, 'r) extern \<Rightarrow> 'k pf \<Rightarrow> map_t \<Rightarrow> real \<Rightarrow> real \<Rightarrow> real \<Rightarrow> 'r \<Rightarrow> 'k pf outcome" where
  "pf_init_to_point E pf mp x y var r =
     init_with E pf (run_do_while (draw_point E x y var) (valid_cell mp)) r"

section \<open>Resampling\<close>

text \<open>
  Every resampler repeats the same importance-resampling loop, over the state
  (scratch set, \<open>total\<close>, generator): \<open>resample_draw\<close> is its body up to the
  insertion in the kd-tree and \<open>resample_loop\<close> the loop with its bound \<open>n\<close> and the
  test against \<open>pf_resample_limit\<close> after each insertion.
\<close>

definition resample_draw ::
  "('k, 'r) extern \<Rightarrow> 'k pf_sample_set \<Rightarrow> real list \<Rightarrow> 'k pf_sample_set \<times> real \<times> 'r
     \<Rightarrow> ('k pf_sample_set \<times> real \<times> 'r) outcome" where
  "resample_draw E set_a randlist st =
     (case st of (set_b, total_w, r) \<Rightarrow>
        (case pf_pdf_discrete_sample E randlist r of (i, r') \<Rightarrow>
           if 0 \<le> i \<and> i < int (length (samples set_a)) then
             let sample_a = samples set_a ! nat i
             in if \<not> weight sample_a > 0 then Fault Assert_failed
                else bind (add_sample E set_b (pose sample_a) 1)
                       (\<lambda>set_b'. Done (set_b', total_w + 1, r'))
           else Fault Out_of_bounds))"

lemma resample_draw_count:
  "resample_draw E set_a randlist st = Done st' \<Longrightarrow>
     sample_count (fst st') = sample_count (fst st) + 1"
  by (auto simp: resample_draw_def add_sample_def push_sample_def bind_def Let_def
           split: prod.splits if_splits outcome.splits)

function resample_loop ::
  "('k, 'r) extern \<Rightarrow> 'k pf \<Rightarrow> 'k pf_sample_set \<Rightarrow> real list \<Rightarrow> int
     \<Rightarrow> 'k pf_sample_set \<times> real \<times> 'r \<Rightarrow> ('k pf_sample_set \<times> real \<times> 'r) outcome" where
  "resample_loop E pf set_a randlist n st =
     (if sample_count (fst st) < n then
        (case resample_draw E set_a randlist st of
           Done st' \<Rightarrow>
             if sample_count (fst st') > pf_resample_limit pf (leaf_count E (kdtree (fst st')))
             then Done st'
             else resample_loop E pf set_a randlist n st'
         | Fault e \<Rightarrow> Fault e
         | Diverges \<Rightarrow> Diverges)
      else Done st)"
  by pat_completeness auto
termination
  by (relation "measure (\<lambda>(E, pf, set_a, randlist, n, st). nat (n - sample_count (fst st)))")
     (auto dest!: resample_draw_count)

text \<open>The common opening of the resamplers: the discrete distribution over the
  weights of \<open>set_a\<close>, the cleared kd-tree of the scratch set, \<open>total = 0\<close>,
  \<open>sample_count = 0\<close>, and the loop.\<close>

definition resample_from ::
  "('k, 'r) extern \<Rightarrow> 'k pf \<Rightarrow> 'k pf_sample_set \<Rightarrow> int \<Rightarrow> 'r
     \<Rightarrow> ('k pf_sample_set \<times> real \<times> 'r) outcome" where
  "resample_from E pf set_a n r =
     (let set_b = sets pf ((current_set pf + 1) smod 2);
          set_b0 = set_b\<lparr>kdtree := pf_kdtree_clear E (kdtree set_b), sample_count := 0\<rparr>
      in resample_loop E pf set_a (randlist_of set_a) n (set_b0, 0, r))"

text \<open>The common ending: divide the weights of the scratch set by \<open>d\<close>, recompute its
  cluster statistics and make it the current set.\<close>

definition finish_resample ::
  "('k, 'r) extern \<Rightarrow> 'k pf \<Rightarrow> 'k pf_sample_set \<Rightarrow> real \<Rightarrow> 'k pf outcome" where
  "finish_resample E pf set_b d =
     bind (normalize_weights set_b d) (\<lambda>set_b1.
     bind (pf_cluster_stats E set_b1) (\<lambda>set_b2.
     Done (pf\<lparr>sets := (sets pf)((current_set pf + 1) smod 2 := set_b2),
              current_set := (current_set pf + 1) smod 2\<rparr>)))"

definition pf_update_resample ::
  "('k, 'r) extern \<Rightarrow> 'k pf \<Rightarrow> int \<Rightarrow> 'r \<Rightarrow> 'k pf outcome" where
  "pf_update_resample E pf nMaxParticles r =
     bind (resample_from E pf (sets pf (current_set pf)) nMaxParticles r)
       (\<lambda>(set_b, total_w, r'). finish_resample E pf set_b total_w)"

text \<open>\<open>pf_update_resample_addParticle\<close>: the slot is taken and its weight written
  before the rejection loop runs.\<close>

definition map_add_one ::
  "('k, 'r) extern \<Rightarrow> map_t \<Rightarrow> 'k pf_sample_set \<times> real \<times> 'r
     \<Rightarrow> ('k pf_sample_set \<times> real \<times> 'r) outcome" where
  "map_add_one E mp st =
     (case st of (set_b, total_w, r) \<Rightarrow>
        if slot_ok set_b then
          bind (run_do_while (draw_map E mp) (free_cell mp) r) (\<lambda>(tmp, r').
          bind (add_sample E set_b tmp 1) (\<lambda>set_b'. Done (set_b', total_w + 1, r')))
        else Fault Out_of_bounds)"

definition pf_update_resample_addParticle ::
  "('k, 'r) extern \<Rightarrow> 'k pf \<Rightarrow> int \<Rightarrow> map_t \<Rightarrow> 'r \<Rightarrow> 'k pf outcome" where
  "pf_update_resample_addParticle E pf nPartToAdd mp r =
     bind (resample_from E pf (sets pf (current_set pf)) (max_samples pf - nPartToAdd) r) (\<lambda>st.
     bind (for_each [0..<nat nPartToAdd] (\<lambda>i. map_add_one E mp) st) (\<lambda>(set_b, total_w, r').
     finish_resample E pf set_b total_w))"

text \<open>\<open>pf_update_resample_map\<close>: the rejection loop runs first, pose and weight are
  written after it; at most 100 samples are added, while the set is below
  \<open>max_samples\<close>.\<close>

definition map_inject_one ::
  "('k, 'r) extern \<Rightarrow> map_t \<Rightarrow> 'k pf_sample_set \<times> real \<times> 'r
     \<Rightarrow> ('k pf_sample_set \<times> real \<times> 'r) outcome" where
  "map_inject_one E mp st =
     (case st of (set_b, total_w, r) \<Rightarrow>
        bind (run_do_while (draw_map E mp) (free_cell mp) r) (\<lambda>(tmp, r').
        bind (add_sample E set_b tmp 1) (\<lambda>set_b'. Done (set_b', total_w + 1, r'))))"

fun map_inject ::
  "('k, 'r) extern \<Rightarrow> 'k pf \<Rightarrow> map_t \<Rightarrow> nat \<Rightarrow> 'k pf_sample_set \<times> real \<times> 'r
     \<Rightarrow> ('k pf_sample_set \<times> real \<times> 'r) outcome" where
  "map_inject E pf mp 0 st = Done st"
| "map_inject E pf mp (Suc n) st =
     (if sample_count (fst st) < max_samples pf
      then bind (map_inject_one E mp st) (map_inject E pf mp n)
      else Done st)"

definition pf_update_resample_map ::
  "('k, 'r) extern \<Rightarrow> 'k pf \<Rightarrow> map_t \<Rightarrow> 'r \<Rightarrow> 'k pf outcome" where
  "pf_update_resample_map E pf mp r =
     bind (resample_from E pf (sets pf (current_set pf))
             (max_samples pf - overHead_samples pf) r) (\<lambda>st.
     bind (if sample_count (fst st) < min_samples pf + 10
           then map_inject E pf mp 100 st else Done st) (\<lambda>(set_b, total_w, r').
     finish_resample E pf set_b total_w))"

text \<open>\<open>pf_update_resample_hyps\<close>. \<open>hyps_nNewSample\<close> is the number of draws made
  for each hypothesis, as the function computes it after the resampling loop;
  \<open>hyps_attempt\<close> is one draw.\<close>

definition hyps_nNewSample :: "'k pf \<Rightarrow> 'k pf_sample_set \<Rightarrow> int \<Rightarrow> int \<Rightarrow> int outcome" where
  "hyps_nNewSample pf set_b nHyp nParticle =
     (let nNewSample = max_samples pf - sample_count set_b;
          nNewSample = (if nParticle < nNewSample then nParticle else nNewSample)
      in if nHyp = 0 then Fault Div_by_zero else Done (nNewSample sdiv nHyp))"

definition hyps_attempt ::
  "('k, 'r) extern \<Rightarrow> map_t \<Rightarrow> hyp_t list \<Rightarrow> nat \<Rightarrow> nat \<Rightarrow> 'k pf_sample_set \<times> real \<times> 'r
     \<Rightarrow> ('k pf_sample_set \<times> real \<times> 'r) outcome" where
  "hyps_attempt E mp hyps j i st =
     (case st of (set_b, total_w, r) \<Rightarrow>
        if j < length hyps then
          (case draw_hyp E (hyps ! j) r of (tmp, r') \<Rightarrow>
             if free_cell mp tmp
             then bind (add_sample E set_b tmp 1) (\<lambda>set_b'. Done (set_b', total_w + 1, r'))
             else Done (set_b, total_w, r'))
        else Fault Out_of_bounds)"

text \<open>The two nested \<open>for\<close> loops: \<open>nNewSample\<close> draws for each of the \<open>nHyp\<close>
  hypotheses.\<close>

definition hyps_inject ::
  "('k, 'r) extern \<Rightarrow> map_t \<Rightarrow> int \<Rightarrow> hyp_t list \<Rightarrow> int \<Rightarrow> 'k pf_sample_set \<times> real \<times> 'r
     \<Rightarrow> ('k pf_sample_set \<times> real \<times> 'r) outcome" where
  "hyps_inject E mp nHyp hyps nNewSample st =
     for_each [0..<nat nHyp] (\<lambda>j. for_each [0..<nat nNewSample] (hyps_attempt E mp hyps j)) st"

definition pf_update_resample_hyps ::
  "('k, 'r) extern \<Rightarrow> 'k pf \<Rightarrow> map_t \<Rightarrow> int \<Rightarrow> hyp_t list \<Rightarrow> int \<Rightarrow> 'r \<Rightarrow> 'k pf outcome" where
  "pf_update_resample_hyps E pf mp nHyp hyps nParticle r =
     bind (resample_from E pf (sets pf (current_set pf))
             (max_samples pf - overHead_samples pf) r) (\<lambda>st.
     bind (hyps_nNewSample pf (fst st) nHyp nParticle) (\<lambda>nNewSample.
     bind (hyps_inject E mp nHyp hyps nNewSample st)
       (\<lambda>(set_b, total_w, r'). finish_resample E pf set_b total_w)))"

text \<open>\<open>pf_update_resample_hyps_2\<close>: the accepted draws are appended to the current
  set, whose weights are then all set to \<open>1.0 / sample_count\<close>; the scratch set is
  resampled from it up to \<open>max_samples - 1000\<close> and normalised by its own count.\<close>

definition hyps_2_attempt ::
  "('k, 'r) extern \<Rightarrow> map_t \<Rightarrow> hyp_t list \<Rightarrow> nat \<Rightarrow> nat \<Rightarrow> 'k pf_sample_set \<times> 'r
     \<Rightarrow> ('k pf_sample_set \<times> 'r) outcome" where
  "hyps_2_attempt E mp hyps j i st =
     (case st of (set_a, r) \<Rightarrow>
        if j < length hyps then
          (case draw_hyp E (hyps ! j) r of (tmp, r') \<Rightarrow>
             if free_cell mp tmp
             then bind (push_sample set_a tmp 1) (\<lambda>set_a'. Done (set_a', r'))
             else Done (set_a, r'))
        else Fault Out_of_bounds)"

definition uniform_weight :: "nat \<Rightarrow> 'k pf_sample_set \<Rightarrow> 'k pf_sample_set outcome" where
  "uniform_weight i s =
     (if i < length (samples s)
      then Done (s\<lparr>samples := (samples s)[i := (samples s ! i)\<lparr>weight := 1 / real_of_int (sample_count s)\<rparr>]\<rparr>)
      else Fault Out_of_bounds)"

definition pf_update_resample_hyps_2 ::
  "('k, 'r) extern \<Rightarrow> 'k pf \<Rightarrow> map_t \<Rightarrow> int \<Rightarrow> hyp_t list \<Rightarrow> int \<Rightarrow> 'r \<Rightarrow> 'k pf outcome" where
  "pf_update_resample_hyps_2 E pf mp nHyp hyps over_head r =
     (let set_a = sets pf (current_set pf)
      in if nHyp = 0 then Fault Div_by_zero
         else
           let nNewSample = (max_samples pf - sample_count set_a) sdiv nHyp
           in bind (for_each [0..<nat nHyp]
                      (\<lambda>j. for_each [0..<nat nNewSample] (hyps_2_attempt E mp hyps j)) (set_a, r))
                (\<lambda>(set_a1, r1).
              bind (for_each [0..<nat (sample_count set_a1)] uniform_weight set_a1) (\<lambda>set_a2.
              let pf1 = pf\<lparr>sets := (sets pf)(current_set pf := set_a2)\<rparr>
              in bind (resample_from E pf1 set_a2 (max_samples pf - 1000) r1)
                   (\<lambda>(set_b, total_w, r2).
                      finish_resample E pf1 set_b (real_of_int (sample_count set_b))))))"

text \<open>\<open>pf_update_resample_hyps_3\<close>: after the resampling loop the current set is
  emptied and reused, once for each hypothesis, as the buffer in which the cloud of
  that hypothesis is collected before it is copied to the scratch set. The inner
  \<open>while\<close> loop ends only through accepted draws or the limit of
  \<open>pf_resample_limit_2\<close>.\<close>

definition hyps_3_attempt ::
  "('k, 'r) extern \<Rightarrow> map_t \<Rightarrow> hyp_t list \<Rightarrow> nat \<Rightarrow> 'k pf_sample_set \<times> 'r
     \<Rightarrow> ('k pf_sample_set \<times> 'r) outcome" where
  "hyps_3_attempt E mp hyps j st =
     (case st of (set_a, r) \<Rightarrow>
        if j < length hyps then
          (case draw_hyp_zero E (hyps ! j) r of (tmp, r') \<Rightarrow>
             if free_cell mp tmp
             then bind (add_sample E set_a tmp 1) (\<lambda>set_a'. Done (set_a', r'))
             else Done (set_a, r'))
        else Fault Out_of_bounds)"

partial_function (option) hyps_3_while ::
  "('k, 'r) extern \<Rightarrow> 'k pf \<Rightarrow> map_t \<Rightarrow> hyp_t list \<Rightarrow> nat \<Rightarrow> int \<Rightarrow> 'k pf_sample_set \<times> 'r
     \<Rightarrow> ('k pf_sample_set \<times> 'r) outcome option" where
  "hyps_3_while E pf mp hyps j nNewSample st =
     (if sample_count (fst st) < nNewSample then
        (if sample_count (fst st) > pf_resample_limit_2 pf (leaf_count E (kdtree (fst st)))
         then Some (Done st)
         else (case hyps_3_attempt E mp hyps j st of
                 Done st' \<Rightarrow> hyps_3_while E pf mp hyps j nNewSample st'
               | Fault e \<Rightarrow> Some (Fault e)
               | Diverges \<Rightarrow> Some Diverges))
      else Some (Done st))"

definition run_hyps_3_while ::
  "('k, 'r) extern \<Rightarrow> 'k pf \<Rightarrow> map_t \<Rightarrow> hyp_t list \<Rightarrow> nat \<Rightarrow> int \<Rightarrow> 'k pf_sample_set \<times> 'r
     \<Rightarrow> ('k pf_sample_set \<times> 'r) outcome" where
  "run_hyps_3_while E pf mp hyps j nNewSample st =
     (case hyps_3_while E pf mp hyps j nNewSample st of None \<Rightarrow> Diverges | Some res \<Rightarrow> res)"

definition hyps_3_transfer ::
  "('k, 'r) extern \<Rightarrow> 'k pf_sample_set \<Rightarrow> nat \<Rightarrow> 'k pf_sample_set \<times> 'r
     \<Rightarrow> ('k pf_sample_set \<times> 'r) outcome" where
  "hyps_3_transfer E set_a i st =
     (case st of (set_b, r) \<Rightarrow>
        if i < length (samples set_a) then
          (case gsl_rng_uniform E r of (u, r') \<Rightarrow>
             bind (add_sample E set_b ((pose (samples set_a ! i))\<lparr>v2 := (u - 1 / 2) * 2 * pi\<rparr>) 1)
               (\<lambda>set_b'. Done (set_b', r')))
        else Fault Out_of_bounds)"

definition hyps_3_cloud ::
  "('k, 'r) extern \<Rightarrow> 'k pf \<Rightarrow> map_t \<Rightarrow> hyp_t list \<Rightarrow> int \<Rightarrow> int \<Rightarrow> nat
     \<Rightarrow> 'k pf_sample_set \<times> 'k pf_sample_set \<times> 'r
     \<Rightarrow> ('k pf_sample_set \<times> 'k pf_sample_set \<times> 'r) outcome" where
  "hyps_3_cloud E pf mp hyps nMinPart nNewSample j st =
     (case st of (set_a, set_b, r) \<Rightarrow>
        let set_a0 = set_a\<lparr>sample_count := 0, kdtree := pf_kdtree_clear E (kdtree set_a)\<rparr>
        in bind (for_each [0..<nat nMinPart] (\<lambda>i. hyps_3_attempt E mp hyps j) (set_a0, r))
             (\<lambda>st1.
           bind (run_hyps_3_while E pf mp hyps j nNewSample st1) (\<lambda>(set_a2, r2).
           bind (for_each [0..<nat (sample_count set_a2)] (hyps_3_transfer E set_a2) (set_b, r2))
             (\<lambda>(set_b3, r3). Done (set_a2, set_b3, r3)))))"

definition pf_update_resample_hyps_3 ::
  "('k, 'r) extern \<Rightarrow> 'k pf \<Rightarrow> map_t \<Rightarrow> int \<Rightarrow> hyp_t list \<Rightarrow> 'r \<Rightarrow> 'k pf outcome" where
  "pf_update_resample_hyps_3 E pf mp nHyp hyps r =
     (let set_a = sets pf (current_set pf);
          nReqSamples = max_samples pf - sample_count set_a;
          nReqSamples = (if nReqSamples < overHead_samples pf
                         then max_samples pf - overHead_samples pf
                         else sample_count set_a)
      in bind (resample_from E pf set_a nReqSamples r) (\<lambda>(set_b, total_w, r1).
         if nHyp = 0 then Fault Div_by_zero
         else
           let nNewSample = (max_samples pf - nReqSamples) sdiv nHyp;
               nMinPart = (if nNewSample > 10 then 10 else nNewSample)
           in bind (for_each [0..<nat nHyp] (hyps_3_cloud E pf mp hyps nMinPart nNewSample)
                      (set_a, set_b, r1)) (\<lambda>(set_a', set_b', r2).
              finish_resample E (pf\<lparr>sets := (sets pf)(current_set pf := set_a')\<rparr>) set_b'
                (real_of_int (sample_count set_b')))))"

section \<open>Calls and observations\<close>

text \<open>The initialization and resampling operations as a datatype of calls with their
  arguments, so that a statement about "any operation" quantifies over a call.\<close>

datatype 'r pf_call =
    Call_init pf_vector pf_matrix
  | Call_init_map map_t
  | Call_init_model "'r \<Rightarrow> pf_vector \<times> 'r"
  | Call_init_to_point map_t real real real
  | Call_resample int
  | Call_resample_addParticle int map_t
  | Call_resample_map map_t
  | Call_resample_hyps map_t int "hyp_t list" int
  | Call_resample_hyps_2 map_t int "hyp_t list" int
  | Call_resample_hyps_3 map_t int "hyp_t list"

fun run_call :: "('k, 'r) extern \<Rightarrow> 'k pf \<Rightarrow> 'r pf_call \<Rightarrow> 'r \<Rightarrow> 'k pf outcome" where
  "run_call E pf (Call_init mean cov) r = pf_init E pf mean cov r"
| "run_call E pf (Call_init_map mp) r = pf_init_map E pf mp r"
| "run_call E pf (Call_init_model init_fn) r = pf_init_model E pf init_fn r"
| "run_call E pf (Call_init_to_point mp x y var) r = pf_init_to_point E pf mp x y var r"
| "run_call E pf (Call_resample nMaxParticles) r = pf_update_resample E pf nMaxParticles r"
| "run_call E pf (Call_resample_addParticle nPartToAdd mp) r =
     pf_update_resample_addParticle E pf nPartToAdd mp r"
| "run_call E pf (Call_resample_map mp) r = pf_update_resample_map E pf mp r"
| "run_call E pf (Call_resample_hyps mp nHyp hyps nParticle) r =
     pf_update_resample_hyps E pf mp nHyp hyps nParticle r"
| "run_call E pf (Call_resample_hyps_2 mp nHyp hyps over_head) r =
     pf_update_resample_hyps_2 E pf mp nHyp hyps over_head r"
| "run_call E pf (Call_resample_hyps_3 mp nHyp hyps) r =
     pf_update_resample_hyps_3 E pf mp nHyp hyps r"

fun is_resample :: "'r pf_call \<Rightarrow> bool" where
  "is_resample (Call_init mean cov) = False"
| "is_resample (Call_init_map mp) = False"
| "is_resample (Call_init_model init_fn) = False"
| "is_resample (Call_init_to_point mp x y var) = False"
| "is_resample c = True"

text \<open>The resamplers that use the current set as a second buffer.\<close>

fun reuses_source :: "'r pf_call \<Rightarrow> bool" where
  "reuses_source (Call_resample_hyps_2 mp nHyp hyps over_head) = True"
| "reuses_source (Call_resample_hyps_3 mp nHyp hyps) = True"
| "reuses_source c = False"

text \<open>The map of the four operations that draw samples from the free cells of a
  map.\<close>

fun free_cell_map :: "'r pf_call \<Rightarrow> map_t option" where
  "free_cell_map (Call_init_map mp) = Some mp"
| "free_cell_map (Call_resample_addParticle nPartToAdd mp) = Some mp"
| "free_cell_map (Call_resample_map mp) = Some mp"
| "free_cell_map (Call_resample_hyps mp nHyp hyps nParticle) = Some mp"
| "free_cell_map c = None"

definition cur :: "'k pf \<Rightarrow> 'k pf_sample_set" where
  "cur pf = sets pf (current_set pf)"

text \<open>The samples of a set: the first \<open>sample_count\<close> entries of its buffer.\<close>

definition live_samples :: "'k pf_sample_set \<Rightarrow> pf_sample list" where
  "live_samples s = take (nat (sample_count s)) (samples s)"

definition weight_sum :: "'k pf_sample_set \<Rightarrow> real" where
  "weight_sum s = sum_list (map weight (live_samples s))"

definition weights_nonneg :: "'k pf_sample_set \<Rightarrow> bool" where
  "weights_nonneg s = list_all (\<lambda>x. 0 \<le> weight x) (live_samples s)"

text \<open>The first \<open>n\<close> samples of \<open>s\<close> carry poses stored in the buffer of \<open>src\<close>, the
  others lie in free cells of the map.\<close>

definition copied_then_free :: "map_t \<Rightarrow> 'k pf_sample_set \<Rightarrow> 'k pf_sample_set \<Rightarrow> nat \<Rightarrow> bool" where
  "copied_then_free mp src s n =
     (n \<le> length (live_samples s)
      \<and> list_all (\<lambda>x. pose x \<in> set (map pose (samples src))) (take n (live_samples s))
      \<and> list_all (\<lambda>x. free_cell mp (pose x)) (drop n (live_samples s)))"

text \<open>Two invariants of the proofs: every sample of the set weighs 1 (the scratch set
  before it is normalised), every sample weighs \<open>1 / sample_count\<close> (after).\<close>

definition unit_weights :: "'k pf_sample_set \<Rightarrow> bool" where
  "unit_weights s \<longleftrightarrow>
     0 \<le> sample_count s \<and> nat (sample_count s) \<le> length (samples s)
     \<and> (\<forall>i < nat (sample_count s). weight (samples s ! i) = 1)"

definition uniform_weights :: "'k pf_sample_set \<Rightarrow> bool" where
  "uniform_weights s \<longleftrightarrow>
     nat (sample_count s) \<le> length (samples s)
     \<and> (\<forall>i < nat (sample_count s). weight (samples s ! i) = 1 / real_of_int (sample_count s))"

text \<open>Invariants of the resampling loops. \<open>unit_state\<close>: the scratch set holds
  unit weights and \<open>total\<close> equals its sample count. \<open>placed mp src n s\<close>: the first
  \<open>n\<close> samples of \<open>s\<close> carry poses of the buffer of \<open>src\<close> and the later ones lie in
  free cells of \<open>mp\<close>.\<close>

definition unit_state :: "'k pf_sample_set \<times> real \<times> 'r \<Rightarrow> bool" where
  "unit_state st \<longleftrightarrow> unit_weights (fst st) \<and> fst (snd st) = real_of_int (sample_count (fst st))"

definition placed :: "map_t \<Rightarrow> 'k pf_sample_set \<Rightarrow> nat \<Rightarrow> 'k pf_sample_set \<Rightarrow> bool" where
  "placed mp src n s \<longleftrightarrow>
     nat (sample_count s) \<le> length (samples s) \<and> n \<le> nat (sample_count s)
     \<and> (\<forall>i < n. pose (samples s ! i) \<in> set (map pose (samples src)))
     \<and> (\<forall>i. n \<le> i \<and> i < nat (sample_count s) \<longrightarrow> free_cell mp (pose (samples s ! i)))"

definition copies_state :: "map_t \<Rightarrow> 'k pf_sample_set \<Rightarrow> 'k pf_sample_set \<times> real \<times> 'r \<Rightarrow> bool" where
  "copies_state mp src st \<longleftrightarrow> placed mp src (nat (sample_count (fst st))) (fst st)"

definition placed_state ::
  "map_t \<Rightarrow> 'k pf_sample_set \<Rightarrow> nat \<Rightarrow> 'k pf_sample_set \<times> real \<times> 'r \<Rightarrow> bool" where
  "placed_state mp src n st \<longleftrightarrow> placed mp src n (fst st)"

text \<open>What \<open>pf_update_resample_hyps_2\<close> leaves in the source set: \<open>s\<close> before the
  call, \<open>s'\<close> after it. The samples in use before the call keep their poses, the
  samples appended after them lie in free cells of the map, every sample in use weighs
  \<open>1 / sample_count\<close>, and nothing else of the set has changed.\<close>

definition appended_and_reweighted :: "map_t \<Rightarrow> 'k pf_sample_set \<Rightarrow> 'k pf_sample_set \<Rightarrow> bool" where
  "appended_and_reweighted mp s s' \<longleftrightarrow>
     sample_count s \<le> sample_count s'
     \<and> kdtree s' = kdtree s \<and> cluster_count s' = cluster_count s
     \<and> cluster_max_count s' = cluster_max_count s \<and> clusters s' = clusters s
     \<and> length (samples s') = length (samples s)
     \<and> map weight (live_samples s')
         = replicate (nat (sample_count s')) (1 / real_of_int (sample_count s'))
     \<and> map pose (take (nat (sample_count s)) (samples s'))
         = map pose (take (nat (sample_count s)) (samples s))
     \<and> list_all (\<lambda>x. free_cell mp (pose x)) (drop (nat (sample_count s)) (live_samples s'))
     \<and> drop (nat (sample_count s')) (samples s') = drop (nat (sample_count s')) (samples s)"

text \<open>What \<open>pf_update_resample_hyps_3\<close> leaves in the source set when it has run for at
  least one hypothesis: a cloud of accepted draws, each of weight 1, heading 0 and in a
  free cell of the map, in a buffer of the old length; the cluster table is
  untouched.\<close>

definition hypothesis_cloud :: "map_t \<Rightarrow> 'k pf_sample_set \<Rightarrow> 'k pf_sample_set \<Rightarrow> bool" where
  "hypothesis_cloud mp s s' \<longleftrightarrow>
     0 \<le> sample_count s' \<and> nat (sample_count s') \<le> length (samples s')
     \<and> list_all (\<lambda>x. weight x = 1 \<and> v2 (pose x) = 0 \<and> free_cell mp (pose x)) (live_samples s')
     \<and> length (samples s') = length (samples s)
     \<and> cluster_count s' = cluster_count s \<and> cluster_max_count s' = cluster_max_count s
     \<and> clusters s' = clusters s"

text \<open>The invariant of the injection loops of \<open>pf_update_resample_hyps_2\<close>: samples
  have been appended to \<open>s\<close>, in free cells, and nothing else has changed.\<close>

definition appending :: "map_t \<Rightarrow> 'k pf_sample_set \<Rightarrow> 'k pf_sample_set \<Rightarrow> bool" where
  "appending mp s t \<longleftrightarrow>
     sample_count s \<le> sample_count t
     \<and> kdtree t = kdtree s \<and> cluster_count t = cluster_count s
     \<and> cluster_max_count t = cluster_max_count s \<and> clusters t = clusters s
     \<and> length (samples t) = length (samples s)
     \<and> (\<forall>i < nat (sample_count s). samples t ! i = samples s ! i)
     \<and> (\<forall>i. nat (sample_count s) \<le> i \<and> i < nat (sample_count t) \<longrightarrow> free_cell mp (pose (samples t ! i)))
     \<and> (\<forall>i. nat (sample_count t) \<le> i \<longrightarrow> samples t ! i = samples s ! i)"

text \<open>The candidate poses of \<open>pf_update_resample_hyps\<close> and
  \<open>pf_update_resample_hyps_2\<close> as the specification counts them: \<open>hyp_draws\<close> is
  \<open>n\<close> draws around one hypothesis, \<open>hyps_candidates\<close> is \<open>n\<close> draws around each
  hypothesis of a list of indices in turn, from the generator state \<open>r\<close> on.\<close>

fun hyp_draws :: "('k, 'r) extern \<Rightarrow> hyp_t \<Rightarrow> nat \<Rightarrow> 'r \<Rightarrow> pf_vector list \<times> 'r" where
  "hyp_draws E h 0 r = ([], r)"
| "hyp_draws E h (Suc n) r =
     (case draw_hyp E h r of (p, r') \<Rightarrow>
        (case hyp_draws E h n r' of (ps, r'') \<Rightarrow> (p # ps, r'')))"

fun hyps_candidates ::
  "('k, 'r) extern \<Rightarrow> hyp_t list \<Rightarrow> nat list \<Rightarrow> nat \<Rightarrow> 'r \<Rightarrow> pf_vector list" where
  "hyps_candidates E hyps [] n r = []"
| "hyps_candidates E hyps (j # js) n r =
     (case hyp_draws E (hyps ! j) n r of (ps, r') \<Rightarrow> ps @ hyps_candidates E hyps js n r')"

section \<open>Concrete inputs\<close>

text \<open>
  A small filter on which the operations are run: collaborators that put every sample
  in one bucket and one cluster, a generator whose uniform draws are all \<open>1/2\<close>,
  whose Gaussian draws are all \<open>(0, 0)\<close> and whose discrete draws are all index 0; a
  map of 2 by 2 cells in which only the cell of the origin is free; two sample sets
  with a buffer of three samples, of which two are in use and lie in an occupied cell.
\<close>

definition ex_extern :: "(nat, nat) extern" where
  "ex_extern = \<lparr>pf_kdtree_clear = (\<lambda>k. 0),
                 pf_kdtree_insert = (\<lambda>k p w. Suc k),
                 leaf_count = (\<lambda>k. 1),
                 pf_kdtree_cluster = (\<lambda>k. k),
                 pf_kdtree_get_cluster = (\<lambda>k p. 0),
                 gsl_rng_uniform_pos = (\<lambda>r. (1 / 2, Suc r)),
                 gsl_rng_uniform = (\<lambda>r. (1 / 2, Suc r)),
                 gsl_ran_bivariate_gaussian = (\<lambda>r sx sy rho. ((0, 0), Suc r)),
                 pf_pdf_discrete_sample = (\<lambda>tbl r. (0, Suc r)),
                 pf_pdf_gaussian_sample = (\<lambda>mean cov r. (mean, Suc r))\<rparr>"

definition ex_map :: map_t where
  "ex_map = \<lparr>origin_x = 0, origin_y = 0, scale = 1, size_x = 2, size_y = 2,
              cells = (\<lambda>i. \<lparr>occ_state = (if i = 3 then - 1 else 1)\<rparr>)\<rparr>"

definition ex_pose :: pf_vector where
  "ex_pose = \<lparr>v0 = - 1, v1 = - 1, v2 = 0\<rparr>"

definition ex_set :: "nat pf_sample_set" where
  "ex_set = \<lparr>sample_count = 2,
              samples = [\<lparr>pose = ex_pose, weight = 3 / 4\<rparr>,
                         \<lparr>pose = ex_pose, weight = 1 / 4\<rparr>,
                         \<lparr>pose = ex_pose, weight = 0\<rparr>],
              kdtree = 0, cluster_count = 1, cluster_max_count = 1,
              clusters = [cluster_zero]\<rparr>"

definition ex_pf :: "nat pf" where
  "ex_pf = \<lparr>min_samples = 2, max_samples = 3, overHead_samples = 1,
             pop_err = 1 / 100, pop_z = 3, current_set = 0,
             sets = (\<lambda>j. ex_set), sumSquareWeights = 0\<rparr>"

definition ex_hyp :: hyp_t where
  "ex_hyp = \<lparr>pf_pose_mean = pf_vector_zero, pf_pose_cov = (\<lambda>i j. if i = j then 1 else 0)\<rparr>"

text \<open>A sensor model that gives the two samples in use the weights 3 and 1 and
  returns their sum, and one that finds every sample impossible.\<close>

definition ex_sensor :: "nat pf_sample_set \<Rightarrow> real \<times> nat pf_sample_set" where
  "ex_sensor s = (4, s\<lparr>samples := [\<lparr>pose = ex_pose, weight = 3\<rparr>,
                                     \<lparr>pose = ex_pose, weight = 1\<rparr>,
                                     \<lparr>pose = ex_pose, weight = 0\<rparr>]\<rparr>)"

definition ex_sensor_zero :: "nat pf_sample_set \<Rightarrow> real \<times> nat pf_sample_set" where
  "ex_sensor_zero s = (0, s\<lparr>samples := [\<lparr>pose = ex_pose, weight = 0\<rparr>,
                                          \<lparr>pose = ex_pose, weight = 0\<rparr>,
                                          \<lparr>pose = ex_pose, weight = 0\<rparr>]\<rparr>)"

text \<open>A set of ten samples for the sum of squares in double arithmetic; a filter
  with a buffer of four samples and a second hypothesis, centred on an occupied cell,
  for the budget of hypothesis-guided injection.\<close>

definition ten_set :: "nat pf_sample_set" where
  "ten_set = ex_set\<lparr>sample_count := 10, samples := replicate 10 \<lparr>pose = ex_pose, weight = 0\<rparr>\<rparr>"

definition ten_pf :: "nat pf" where
  "ten_pf = ex_pf\<lparr>min_samples := 10, max_samples := 10, sets := (\<lambda>j. ten_set)\<rparr>"

definition ex_far_hyp :: hyp_t where
  "ex_far_hyp = \<lparr>pf_pose_mean = ex_pose, pf_pose_cov = (\<lambda>i j. if i = j then 1 else 0)\<rparr>"

definition ex_set4 :: "nat pf_sample_set" where
  "ex_set4 = ex_set\<lparr>samples := [\<lparr>pose = ex_pose, weight = 3 / 4\<rparr>,
                                  \<lparr>pose = ex_pose, weight = 1 / 4\<rparr>,
                                  \<lparr>pose = ex_pose, weight = 0\<rparr>,
                                  \<lparr>pose = ex_pose, weight = 0\<rparr>]\<rparr>"

definition ex_pf4 :: "nat pf" where
  "ex_pf4 = ex_pf\<lparr>max_samples := 4, overHead_samples := 2, sets := (\<lambda>j. ex_set4)\<rparr>"

text \<open>Filters for the resample limit: the parameters \<open>pf_alloc\<close> sets, with bounds
  100 and 5000; bounds in the wrong order; a large quantile \<open>pop_z\<close>.\<close>

definition pf_default :: "nat pf" where
  "pf_default = ex_pf\<lparr>min_samples := 100, max_samples := 5000, overHead_samples := 0\<rparr>"

definition pf_min_above_max :: "nat pf" where
  "pf_min_above_max = ex_pf\<lparr>min_samples := 1000, max_samples := 500\<rparr>"

definition pf_z12 :: "nat pf" where
  "pf_z12 = pf_default\<lparr>max_samples := 100000, pop_z := 12\<rparr>"

text \<open>The filter of \<open>pf_alloc\<close> with \<open>pop_err = 0.01\<close> as a double, and one whose
  \<open>pop_err\<close> is the double \<open>0.011232281664380426\<close>.\<close>

definition pf_alloc_double :: "nat pf" where
  "pf_alloc_double = pf_default\<lparr>pop_err := round_double (1 / 100)\<rparr>"

definition pf_tight :: "nat pf" where
  "pf_tight = pf_default\<lparr>pop_err := 3237484769166345 / 288230376151711744\<rparr>"

section \<open>Rounding to the nearest double\<close>

text \<open>The rounding: \<open>binade\<close> is the integer part of the binary logarithm, and the
  relative error of \<open>round_double\<close> is at most \<open>2^-53\<close>.\<close>

lemma binade_log:
  assumes "0 < x"
  shows "binade x = \<lfloor>log 2 x\<rfloor>"
  using assms
proof (induction x rule: binade.induct)
  case (1 x)
  show ?case
  proof (cases "2 \<le> x")
    case True
    have "log 2 (x / 2) = log 2 x - 1" using True by (simp add: log_divide)
    then have "\<lfloor>log 2 (x / 2)\<rfloor> = \<lfloor>log 2 x\<rfloor> - 1" by simp
    moreover have "binade (x / 2) = \<lfloor>log 2 (x / 2)\<rfloor>" using "1.IH"(1) "1.prems" True by simp
    ultimately show ?thesis using True "1.prems" by (subst binade.simps) simp
  next
    case False
    show ?thesis
    proof (cases "x < 1")
      case True
      have "log 2 (2 * x) = 1 + log 2 x" using "1.prems" by (simp add: log_mult)
      then have "\<lfloor>log 2 (2 * x)\<rfloor> = \<lfloor>log 2 x\<rfloor> + 1" by simp
      moreover have "binade (2 * x) = \<lfloor>log 2 (2 * x)\<rfloor>"
        using "1.IH"(2) "1.prems" True False by simp
      ultimately show ?thesis using True False "1.prems" by (subst binade.simps) simp
    next
      case F: False
      have "0 \<le> log 2 x" using F by simp
      moreover have "log 2 x < 1" using False "1.prems" by (simp add: log_less_iff)
      ultimately have "\<lfloor>log 2 x\<rfloor> = 0" by linarith
      then show ?thesis using F False "1.prems" by (subst binade.simps) simp
    qed
  qed
qed

lemma pow2_powr: "pow2 e = 2 powr real_of_int e"
proof (cases "0 \<le> e")
  case True
  then have "2 powr real_of_int e = 2 powr real (nat e)" by simp
  also have "\<dots> = 2 ^ nat e" by (simp add: powr_realpow)
  finally show ?thesis using True by (simp add: pow2_def)
next
  case False
  then have "2 powr real_of_int e = 2 powr (- real (nat (- e)))" by simp
  also have "\<dots> = 1 / 2 powr real (nat (- e))" by (simp add: powr_minus divide_inverse)
  also have "\<dots> = 1 / 2 ^ nat (- e)" by (simp add: powr_realpow)
  finally show ?thesis using False by (simp add: pow2_def)
qed

lemma binade_bounds:
  assumes "0 < x"
  shows "pow2 (binade x) \<le> x \<and> x < 2 * pow2 (binade x)"
proof -
  have "real_of_int (binade x) \<le> log 2 x" by (simp add: binade_log[OF assms])
  then have a: "2 powr real_of_int (binade x) \<le> x" using assms by (simp add: le_log_iff)
  have "log 2 x < real_of_int (binade x) + 1" by (simp add: binade_log[OF assms])
  then have "x < 2 powr (real_of_int (binade x) + 1)" using assms by (simp add: log_less_iff)
  then have b: "x < 2 * 2 powr real_of_int (binade x)" by (simp add: powr_add)
  from a b show ?thesis by (simp add: pow2_powr)
qed

lemma round_even_error: "\<bar>real_of_int (round_even m) - m\<bar> \<le> 1 / 2"
proof -
  have "real_of_int \<lfloor>m\<rfloor> \<le> m" "m < real_of_int \<lfloor>m\<rfloor> + 1" by linarith+
  then show ?thesis by (auto simp: round_even_def Let_def)
qed

lemma pow2_pos: "0 < pow2 e"
  by (simp add: pow2_powr)

lemma pow2_add: "pow2 (a + b) = pow2 a * pow2 b"
  by (simp add: pow2_powr powr_add)

lemma round_double_error: "\<bar>round_double x - x\<bar> \<le> (1 / 2 ^ 53) * \<bar>x\<bar>"
proof (cases "x = 0")
  case True
  then show ?thesis by (simp add: round_double_def)
next
  case False
  define a where "a = \<bar>x\<bar>"
  define e where "e = binade a"
  define m where "m = a * pow2 (52 - e)"
  define k where "k = real_of_int (round_even m)"
  have a: "0 < a" using False by (simp add: a_def)
  have x: "x = sgn x * a" by (simp add: a_def sgn_real_def)
  from binade_bounds[OF a] have lo: "pow2 e \<le> a" by (simp add: e_def)
  have one: "pow2 (52 - e) * pow2 (e - 52) = 1"
    using pow2_add[of "52 - e" "e - 52"] by (simp add: pow2_def)
  have am: "a = m * pow2 (e - 52)" using one by (simp add: m_def mult.assoc)
  have "round_double x = sgn x * k * pow2 (e - 52)"
    using False by (simp add: round_double_def Let_def k_def m_def e_def a_def)
  then have "round_double x - x = sgn x * ((k - m) * pow2 (e - 52))"
    using x am by (simp add: algebra_simps)
  then have "\<bar>round_double x - x\<bar> = \<bar>k - m\<bar> * pow2 (e - 52)"
    using False pow2_pos[of "e - 52"] by (simp add: abs_mult sgn_real_def)
  also have "\<dots> \<le> (1 / 2) * pow2 (e - 52)"
    using round_even_error[of m] pow2_pos[of "e - 52"] by (intro mult_right_mono) (auto simp: k_def)
  also have "\<dots> = (1 / 2 ^ 53) * pow2 e"
  proof -
    have "pow2 e = pow2 (e - 52) * pow2 52" using pow2_add[of "e - 52" 52] by simp
    moreover have "pow2 52 = 2 ^ 52" by (simp add: pow2_def)
    ultimately show ?thesis by simp
  qed
  also have "\<dots> \<le> (1 / 2 ^ 53) * a" using lo by (intro mult_left_mono) auto
  finally show ?thesis by (simp add: a_def)
qed

lemmas rd_defs = round_double_def binade.simps round_even_def pow2_def Let_def

section \<open>The resample limit: formula, bounds, monotonicity\<close>

lemmas fp_defs = fadd_def fsub_def fmul_def fdiv_def fsqrt_def int_of_ceil_def

lemma fox_bound_unfold:
  "fox_bound err z k =
     \<lceil>real_of_int (k - 1) / (2 * err)
        * (1 - 2 / (9 * real_of_int (k - 1)) + sqrt (2 / (9 * real_of_int (k - 1))) * z) ^ 3\<rceil>"
  by (simp add: fox_bound_def fox_value_def)

lemma kld_limit_spec_unfold:
  "kld_limit_spec pf k =
     (if k \<le> 1 then min_samples pf
      else let v = max (fox_bound (pop_err pf) (pop_z pf) k) (min_samples pf)
           in if v \<ge> max_samples pf then max_samples pf else v)"
  by (simp add: kld_limit_spec_def clamp_spec_def)

text \<open>C10. The parameterised limit, called with the filter's own \<open>pop_z\<close> and
  \<open>pop_err\<close>, returns what the built-in limit returns, for every filter and every
  bucket count.\<close>

theorem pf_resample_limit_hyps_own_params:
  "pf_resample_limit_hyps pf k (pop_z pf) (pop_err pf) = pf_resample_limit pf k"
  by (simp add: pf_resample_limit_hyps_def pf_resample_limit_def)

lemma pf_resample_limit_fox:
  "1 < k \<Longrightarrow> pop_err pf \<noteq> 0 \<Longrightarrow>
     pf_resample_limit pf k = clamp_samples pf (int_conv (fox_bound (pop_err pf) (pop_z pf) k))"
  by (simp add: pf_resample_limit_def clamp_samples_def fox_bound_unfold Let_def power3_eq_cube
        mult.assoc fp_defs)

lemma pf_resample_limit_clamp:
  "1 < k \<Longrightarrow> \<exists>n. pf_resample_limit pf k = clamp_samples pf n"
  by (auto simp: pf_resample_limit_def clamp_samples_def Let_def)

text \<open>Without the test \<open>k \<le> 1\<close>, \<open>pf_resample_limit_2\<close> returns \<open>INT_MIN\<close> for
  a set whose kd-tree has at most one leaf: the test \<open>sample_count > ntemp\<close> of
  \<open>pf_update_resample_hyps_3\<close> then ends the inner loop at once.\<close>

lemma pf_resample_limit_2_small:
  "k \<le> 1 \<Longrightarrow> pf_resample_limit_2 pf k = INT_MIN"
  by (simp add: pf_resample_limit_2_def Let_def fp_defs)

lemma fox_bound_kld_x:
  "fox_bound err z k = \<lceil>real_of_int (k - 1) * kld_x z (real_of_int (k - 1)) ^ 3 / (2 * err)\<rceil>"
  by (simp add: fox_bound_unfold kld_x_def)

lemma clamp_samples_mono:
  "min_samples pf \<le> max_samples pf \<Longrightarrow> a \<le> b \<Longrightarrow> clamp_samples pf a \<le> clamp_samples pf b"
  by (simp add: clamp_samples_def)

lemma clamp_samples_range:
  "min_samples pf \<le> max_samples pf \<Longrightarrow>
     min_samples pf \<le> clamp_samples pf a \<and> clamp_samples pf a \<le> max_samples pf"
  by (simp add: clamp_samples_def)

lemma int_conv_mono:
  "a \<le> b \<Longrightarrow> b \<le> INT_MAX \<Longrightarrow> int_conv a \<le> int_conv b"
  by (simp add: int_conv_def INT_MIN_def INT_MAX_def)

lemma pf_resample_limit_range:
  assumes "min_samples pf \<le> max_samples pf"
  shows "min_samples pf \<le> pf_resample_limit pf k \<and> pf_resample_limit pf k \<le> max_samples pf"
proof (cases "k \<le> 1")
  case True
  then show ?thesis using assms by (simp add: pf_resample_limit_def)
next
  case False
  then obtain n where "pf_resample_limit pf k = clamp_samples pf n"
    using pf_resample_limit_clamp[of k pf] by auto
  then show ?thesis using clamp_samples_range[OF assms] by simp
qed

text \<open>The function \<open>m \<mapsto> m * x(m)^3\<close> of the formula has the derivative
  \<open>x(m)^2 * (1 + 2 s^2 - z s / 2)\<close> with \<open>s = sqrt (2 / (9 m))\<close>, and the second
  factor is \<open>2 (s - z / 8)^2 + 1 - z^2 / 32\<close>: the function grows
  wherever this factor is not negative.\<close>

lemma kld_x_deriv:
  assumes "0 < m"
  shows "((\<lambda>m. m * kld_x z m ^ 3) has_real_derivative
          (kld_x z m)\<^sup>2 * (1 + 2 * (2 / (9 * m)) - z * sqrt (2 / (9 * m)) / 2)) (at m)"
proof -
  define s where "s = sqrt (2 / (9 * m))"
  define A where "A = 2 / (9 * m\<^sup>2)"
  define K where "K = kld_x z m"
  have s_pos: "0 < s" using assms by (simp add: s_def)
  have s2: "s * s = 2 / (9 * m)" using assms by (simp add: s_def)
  have d: "((\<lambda>m. m * kld_x z m ^ 3) has_real_derivative
          (kld_x z m ^ 3 + m * (3 * kld_x z m ^ 2 * (2 / (9 * m\<^sup>2) + (- (2 / (9 * m\<^sup>2))) * (inverse (sqrt (2 / (9 * m))) / 2) * z)))) (at m)"
    unfolding kld_x_def using assms
    by (auto intro!: derivative_eq_intros simp: power2_eq_square field_simps)
  have k: "K = 1 - s * s + s * z" by (simp add: K_def kld_x_def s_def[symmetric] s2)
  have a1: "m * A = s * s" using assms s2 by (simp add: A_def power2_eq_square field_simps)
  have a2: "s * s * inverse s = s" using s_pos by simp
  have "m * (3 * K\<^sup>2 * (A + (- A) * (inverse s / 2) * z))
        = 3 * K\<^sup>2 * (m * A - (m * A) * inverse s * z / 2)"
    by (simp add: algebra_simps)
  also have "\<dots> = 3 * K\<^sup>2 * (s * s - s * z / 2)"
    by (simp only: a1 a2)
  finally have e: "m * (3 * K\<^sup>2 * (A + (- A) * (inverse s / 2) * z)) = 3 * K\<^sup>2 * (s * s - s * z / 2)" .
  have "K ^ 3 + 3 * K\<^sup>2 * (s * s - s * z / 2) = K\<^sup>2 * (1 + 2 * (s * s) - z * s / 2)"
    unfolding k by (simp add: power2_eq_square power3_eq_cube algebra_simps)
  then have "K ^ 3 + m * (3 * K\<^sup>2 * (A + (- A) * (inverse s / 2) * z)) = K\<^sup>2 * (1 + 2 * (s * s) - z * s / 2)"
    unfolding e .
  then have "kld_x z m ^ 3 + m * (3 * kld_x z m ^ 2 * (2 / (9 * m\<^sup>2) + (- (2 / (9 * m\<^sup>2))) * (inverse (sqrt (2 / (9 * m))) / 2) * z))
     = (kld_x z m)\<^sup>2 * (1 + 2 * (2 / (9 * m)) - z * sqrt (2 / (9 * m)) / 2)"
    unfolding s2 unfolding K_def A_def s_def .
  with d show ?thesis by (simp only:)
qed


lemma kld_x_mono_from:
  assumes "0 < a" "a \<le> b"
    and q: "\<And>s. 0 < s \<Longrightarrow> s * s \<le> 2 / (9 * a) \<Longrightarrow> 0 \<le> 1 + 2 * (s * s) - z * s / 2"
  shows "a * kld_x z a ^ 3 \<le> b * kld_x z b ^ 3"
proof (rule DERIV_nonneg_imp_nondecreasing[OF assms(2)])
  fix m assume am: "a \<le> m" and "m \<le> b"
  then have m: "0 < m" using assms by simp
  define s where "s = sqrt (2 / (9 * m))"
  have s_pos: "0 < s" using m by (simp add: s_def)
  have s2: "s * s = 2 / (9 * m)" using m by (simp add: s_def)
  have "2 / (9 * m) \<le> 2 / (9 * a)" using am assms(1) by (simp add: frac_le)
  then have "s * s \<le> 2 / (9 * a)" using s2 by simp
  from q[OF s_pos this]
  have "0 \<le> 1 + 2 * (2 / (9 * m)) - z * sqrt (2 / (9 * m)) / 2"
    unfolding s2 unfolding s_def .
  then have "0 \<le> (kld_x z m)\<^sup>2 * (1 + 2 * (2 / (9 * m)) - z * sqrt (2 / (9 * m)) / 2)"
    by (intro mult_nonneg_nonneg zero_le_power2)
  with kld_x_deriv[OF m, of z]
  show "\<exists>y. ((\<lambda>m. m * kld_x z m ^ 3) has_real_derivative y) (at m) \<and> 0 \<le> y"
    by blast
qed

lemma kld_x_mono_from_2:
  assumes z: "z \<le> 22 / 3" and "2 \<le> a" "a \<le> b"
  shows "a * kld_x z a ^ 3 \<le> b * kld_x z b ^ 3"
proof (rule kld_x_mono_from)
  show "0 < a" using assms by simp
  show "a \<le> b" by fact
next
  fix s :: real assume s: "0 < s" and ss: "s * s \<le> 2 / (9 * a)"
  have "2 / (9 * a) \<le> 1 / 9" using assms(2) by (simp add: field_simps)
  then have "s * s \<le> (1 / 3) * (1 / 3)" using ss by simp
  then have s3: "s \<le> 1 / 3"
    using s by (meson mult_strict_mono' not_le less_eq_real_def zero_less_divide_1_iff zero_less_numeral)
  have "z * s \<le> (22 / 3) * s" using z s by (simp add: mult_right_mono)
  moreover have "0 \<le> 2 * (1 / 3 - s) * (3 / 2 - s)"
    using s3 by (intro mult_nonneg_nonneg) auto
  then have "0 \<le> 1 + 2 * (s * s) - (22 / 3) * s / 2" by (simp add: algebra_simps)
  ultimately show "0 \<le> 1 + 2 * (s * s) - z * s / 2" by simp
qed

lemma sqrt_ninth: "sqrt (1 / 9) = 1 / 3"
  by (rule real_sqrt_unique) (simp_all add: power2_eq_square)

lemma sqrt_36th: "sqrt (1 / 36) = 1 / 6"
  by (rule real_sqrt_unique) (simp_all add: power2_eq_square)

text \<open>The first step decides. Past \<open>k - 1 = 2\<close> the function \<open>m * x(m)^3\<close> grows
  for every \<open>z \<le> 22/3\<close>, and for a larger \<open>z\<close> its value at 1 is above its value
  at 2. Its value at 1 is at most its value at 2 for every \<open>z \<le> 6.65\<close>.\<close>

lemma kld_x_1: "kld_x z 1 = 7 / 9 + sqrt (2 / 9) * z"
  by (simp add: kld_x_def)

lemma kld_x_2: "kld_x z 2 = 8 / 9 + z / 3"
  using sqrt_ninth by (simp add: kld_x_def)

lemma sqrt_two_ninths: "4714 / 10000 \<le> sqrt (2 / 9) \<and> sqrt (2 / 9) \<le> 4714067 / 10000000"
proof
  show "4714 / 10000 \<le> sqrt (2 / 9)"
    by (rule real_le_rsqrt) (simp add: power2_eq_square)
  show "sqrt (2 / 9) \<le> 4714067 / 10000000"
    by (rule real_le_lsqrt) (simp_all add: power2_eq_square)
qed

lemma kld_first_step_fails:
  assumes "22 / 3 < z"
  shows "2 * kld_x z 2 ^ 3 < kld_x z 1 ^ 3"
proof -
  define x2 where "x2 = 8 / 9 + z / 3"
  define x1 where "x1 = 7 / 9 + sqrt (2 / 9) * z"
  have x2: "0 < x2" using assms by (simp add: x2_def)
  define t where "t = sqrt (2 / 9) * z"
  have "(4714 / 10000) * z \<le> t"
    unfolding t_def using sqrt_two_ninths assms by (intro mult_right_mono) auto
  then have "(63 / 50) * (8 / 9 + z / 3) \<le> 7 / 9 + t" using assms by simp
  then have le: "(63 / 50) * x2 \<le> x1" by (simp only: x1_def x2_def t_def)
  have "0 \<le> (63 / 50) * x2" using x2 by simp
  then have "((63 / 50) * x2) ^ 3 \<le> x1 ^ 3" using le by (rule power_mono[rotated])
  moreover have "2 * x2 ^ 3 < ((63 / 50) * x2) ^ 3"
  proof -
    have "0 < x2 ^ 3" using x2 by simp
    then have "2 * x2 ^ 3 < (250047 / 125000) * x2 ^ 3" by simp
    also have "\<dots> = ((63 / 50) * x2) ^ 3" by (simp add: power3_eq_cube)
    finally show ?thesis .
  qed
  ultimately show ?thesis by (simp add: kld_x_1 kld_x_2 x1_def x2_def)
qed

lemma kld_first_step_holds:
  assumes "z \<le> 133 / 20"
  shows "kld_x z 1 ^ 3 \<le> 2 * kld_x z 2 ^ 3"
proof (cases "z \<le> 6")
  case True
  have "1 * kld_x z 1 ^ 3 \<le> 2 * kld_x z 2 ^ 3"
  proof (rule kld_x_mono_from)
    fix s :: real assume s: "0 < s" and ss: "s * s \<le> 2 / (9 * 1)"
    have "s * s \<le> (1 / 2) * (1 / 2)" using ss by simp
    then have s2: "s \<le> 1 / 2"
      using s by (meson mult_strict_mono' not_le less_eq_real_def zero_less_divide_1_iff zero_less_numeral)
    have "z * s \<le> 6 * s" using True s by (simp add: mult_right_mono)
    moreover have "0 \<le> (1 - 2 * s) * (1 - s)"
      using s2 by (intro mult_nonneg_nonneg) auto
    then have "0 \<le> 1 + 2 * (s * s) - 6 * s / 2" by (simp add: algebra_simps)
    ultimately show "0 \<le> 1 + 2 * (s * s) - z * s / 2" by simp
  qed simp_all
  then show ?thesis by simp
next
  case False
  define x2 where "x2 = 8 / 9 + z / 3"
  define x1 where "x1 = 7 / 9 + sqrt (2 / 9) * z"
  have z: "6 < z" using False by simp
  have x2: "0 < x2" using z by (simp add: x2_def)
  have x1: "0 \<le> x1" using z by (simp add: x1_def)
  define t where "t = sqrt (2 / 9) * z"
  have "t \<le> (4714067 / 10000000) * z"
    unfolding t_def using sqrt_two_ninths z by (intro mult_right_mono) auto
  then have "7 / 9 + t \<le> (12599 / 10000) * (8 / 9 + z / 3)" using assms z by simp
  then have le: "x1 \<le> (12599 / 10000) * x2" by (simp only: x1_def x2_def t_def)
  have "x1 ^ 3 \<le> ((12599 / 10000) * x2) ^ 3" using x1 le by (rule power_mono[rotated])
  also have "\<dots> = (12599 / 10000) ^ 3 * x2 ^ 3" by (rule power_mult_distrib)
  also have "\<dots> \<le> 2 * x2 ^ 3"
    using x2 by (intro mult_right_mono) (simp_all add: power3_eq_cube)
  finally show ?thesis by (simp add: kld_x_1 kld_x_2 x1_def x2_def)
qed

lemma kld_x_mono_int:
  assumes g: "kld_x z 1 ^ 3 \<le> 2 * kld_x z 2 ^ 3" and "1 \<le> m" "m \<le> m'"
  shows "real_of_int m * kld_x z (real_of_int m) ^ 3 \<le> real_of_int m' * kld_x z (real_of_int m') ^ 3"
proof -
  have z: "z \<le> 22 / 3" using g kld_first_step_fails[of z] by (cases "z \<le> 22 / 3") auto
  show ?thesis
  proof (cases "m = 1")
    case False
    then have "2 \<le> real_of_int m" "real_of_int m \<le> real_of_int m'" using assms by auto
    then show ?thesis using z by (intro kld_x_mono_from_2)
  next
    case True
    show ?thesis
    proof (cases "m' = 1")
      case True
      then show ?thesis using \<open>m = 1\<close> by simp
    next
      case False
      then have "2 \<le> real_of_int m'" using assms True by auto
      then have "2 * kld_x z 2 ^ 3 \<le> real_of_int m' * kld_x z (real_of_int m') ^ 3"
        using z kld_x_mono_from_2[of z 2 "real_of_int m'"] by simp
      then show ?thesis using g True by simp
    qed
  qed
qed

lemma pf_resample_limit_mono:
  assumes mm: "min_samples pf \<le> max_samples pf"
    and err: "0 < pop_err pf"
    and g: "kld_x (pop_z pf) 1 ^ 3 \<le> 2 * kld_x (pop_z pf) 2 ^ 3"
    and kk: "k \<le> k'"
    and fits: "fox_bound (pop_err pf) (pop_z pf) k' \<le> INT_MAX"
  shows "pf_resample_limit pf k \<le> pf_resample_limit pf k'"
proof (cases "k \<le> 1")
  case True
  then have "pf_resample_limit pf k = min_samples pf" by (simp add: pf_resample_limit_def)
  then show ?thesis using pf_resample_limit_range[OF mm, of k'] by simp
next
  case False
  then have k: "1 < k" and k': "1 < k'" using kk by auto
  have "1 \<le> k - 1" and "k - 1 \<le> k' - 1" using k kk by auto
  with g have "real_of_int (k - 1) * kld_x (pop_z pf) (real_of_int (k - 1)) ^ 3
      \<le> real_of_int (k' - 1) * kld_x (pop_z pf) (real_of_int (k' - 1)) ^ 3"
    by (rule kld_x_mono_int)
  then have "real_of_int (k - 1) * kld_x (pop_z pf) (real_of_int (k - 1)) ^ 3 / (2 * pop_err pf)
      \<le> real_of_int (k' - 1) * kld_x (pop_z pf) (real_of_int (k' - 1)) ^ 3 / (2 * pop_err pf)"
    using err by (simp add: divide_right_mono)
  then have "fox_bound (pop_err pf) (pop_z pf) k \<le> fox_bound (pop_err pf) (pop_z pf) k'"
    unfolding fox_bound_kld_x by (rule ceiling_mono)
  then have "int_conv (fox_bound (pop_err pf) (pop_z pf) k)
      \<le> int_conv (fox_bound (pop_err pf) (pop_z pf) k')"
    using fits by (rule int_conv_mono)
  then show ?thesis
    using clamp_samples_mono[OF mm] err by (simp add: pf_resample_limit_fox k k')
qed

lemma fox_3: "fox_bound (1 / 100) 3 3 = 674"
  by (simp add: fox_bound_unfold sqrt_ninth power3_eq_cube ceiling_eq_iff)

lemma fox_9: "fox_bound (1 / 100) 3 9 = 1277"
  by (simp add: fox_bound_unfold sqrt_36th power3_eq_cube ceiling_eq_iff)

lemma fox_z12_3: "fox_bound (1 / 100) 12 3 = 11686"
  by (simp add: fox_bound_unfold sqrt_ninth power3_eq_cube ceiling_eq_iff)

lemma fox_z12_9: "fox_bound (1 / 100) 12 9 = 10503"
  by (simp add: fox_bound_unfold sqrt_36th power3_eq_cube ceiling_eq_iff)

text \<open>With the parameters of \<open>pf_alloc\<close> the formula passes \<open>INT_MAX\<close> long before
  fifty million buckets, and lies between 5000 and \<open>INT_MAX\<close> for a thousand.\<close>

lemma fox_lower:
  assumes "1 < k" "0 < err" "0 \<le> z"
  shows "real_of_int (k - 1) / (2 * err) * (1 - 2 / (9 * real_of_int (k - 1))) ^ 3
         \<le> real_of_int (fox_bound err z k)"
proof -
  define m where "m = real_of_int (k - 1)"
  have m: "1 \<le> m" using assms by (simp add: m_def)
  have "0 \<le> 1 - 2 / (9 * m)" using m by (simp add: field_simps)
  moreover have "1 - 2 / (9 * m) \<le> 1 - 2 / (9 * m) + sqrt (2 / (9 * m)) * z"
    using assms m by simp
  ultimately have "(1 - 2 / (9 * m)) ^ 3 \<le> (1 - 2 / (9 * m) + sqrt (2 / (9 * m)) * z) ^ 3"
    by (rule power_mono[rotated])
  then have "m / (2 * err) * (1 - 2 / (9 * m)) ^ 3
      \<le> m / (2 * err) * (1 - 2 / (9 * m) + sqrt (2 / (9 * m)) * z) ^ 3"
    using m assms by (intro mult_left_mono) auto
  also have "\<dots> \<le> real_of_int (fox_bound err z k)"
    unfolding fox_bound_unfold m_def by (rule le_of_int_ceiling)
  finally show ?thesis unfolding m_def .
qed

lemma fox_upper:
  assumes "1 < k" "0 < err" "0 \<le> z"
  shows "real_of_int (fox_bound err z k) \<le> real_of_int (k - 1) / (2 * err) * (1 + z) ^ 3 + 1"
proof -
  define m where "m = real_of_int (k - 1)"
  have m: "1 \<le> m" using assms by (simp add: m_def)
  have "2 / (9 * m) \<le> 1" using m by (simp add: field_simps)
  then have "sqrt (2 / (9 * m)) \<le> 1" by simp
  then have "sqrt (2 / (9 * m)) * z \<le> 1 * z" using assms by (intro mult_right_mono) auto
  moreover have "0 \<le> 2 / (9 * m)" using m by simp
  ultimately have le: "1 - 2 / (9 * m) + sqrt (2 / (9 * m)) * z \<le> 1 + z" by linarith
  have "0 \<le> 1 - 2 / (9 * m)" using m by (simp add: field_simps)
  moreover have "0 \<le> sqrt (2 / (9 * m)) * z" using assms m by simp
  ultimately have "0 \<le> 1 - 2 / (9 * m) + sqrt (2 / (9 * m)) * z" by linarith
  then have "(1 - 2 / (9 * m) + sqrt (2 / (9 * m)) * z) ^ 3 \<le> (1 + z) ^ 3"
    using le by (rule power_mono[rotated])
  then have "m / (2 * err) * (1 - 2 / (9 * m) + sqrt (2 / (9 * m)) * z) ^ 3
      \<le> m / (2 * err) * (1 + z) ^ 3"
    using m assms by (intro mult_left_mono) auto
  moreover have "real_of_int (fox_bound err z k)
      \<le> m / (2 * err) * (1 - 2 / (9 * m) + sqrt (2 / (9 * m)) * z) ^ 3 + 1"
    unfolding fox_bound_unfold m_def using of_int_ceiling_le_add_one by blast
  ultimately show ?thesis unfolding m_def by simp
qed

lemma fox_50000000: "INT_MAX < fox_bound (1 / 100) 3 50000000"
proof -
  have "real_of_int INT_MAX < real_of_int (50000000 - 1) / (2 * (1 / 100)) * (1 - 2 / (9 * real_of_int (50000000 - 1))) ^ 3"
    by (simp add: INT_MAX_def power3_eq_cube)
  also have "\<dots> \<le> real_of_int (fox_bound (1 / 100) 3 50000000)"
    by (rule fox_lower) simp_all
  finally show ?thesis by simp
qed

lemma fox_1000: "5000 \<le> fox_bound (1 / 100) 3 1000 \<and> fox_bound (1 / 100) 3 1000 \<le> INT_MAX"
proof
  have "real_of_int 5000 \<le> real_of_int (1000 - 1) / (2 * (1 / 100)) * (1 - 2 / (9 * real_of_int (1000 - 1))) ^ 3"
    by (simp add: power3_eq_cube)
  also have "\<dots> \<le> real_of_int (fox_bound (1 / 100) 3 1000)"
    by (rule fox_lower) simp_all
  finally show "5000 \<le> fox_bound (1 / 100) 3 1000" by linarith
  have "real_of_int (fox_bound (1 / 100) 3 1000) \<le> real_of_int (1000 - 1) / (2 * (1 / 100)) * (1 + 3) ^ 3 + 1"
    by (rule fox_upper) simp_all
  also have "\<dots> \<le> real_of_int INT_MAX" by (simp add: INT_MAX_def)
  finally show "fox_bound (1 / 100) 3 1000 \<le> INT_MAX" by linarith
qed

text \<open>The double arithmetic. With the identity for the rounding,
  \<open>pf_resample_limit_rounded\<close> is \<open>pf_resample_limit\<close>.\<close>

lemma pf_resample_limit_rounded_exact:
  "pf_resample_limit_rounded (\<lambda>x. x) pf k = pf_resample_limit pf k"
proof -
  have "fr (\<lambda>x. x) v = v" for v :: double by (cases v) (simp_all add: fr_def)
  then show ?thesis
    by (simp add: pf_resample_limit_rounded_def pf_resample_limit_def fsub_def fmul_def)
qed

lemma rnd_bounds:
  fixes rnd :: "real \<Rightarrow> real"
  assumes "\<And>x. \<bar>rnd x - x\<bar> \<le> u * \<bar>x\<bar>" and "0 \<le> y"
  shows "(1 - u) * y \<le> rnd y \<and> rnd y \<le> (1 + u) * y"
  using assms(1)[of y] assms(2) by (simp add: algebra_simps abs_le_iff)

lemma rel_within_rnd:
  fixes rnd :: "real \<Rightarrow> real"
  assumes rnd: "\<And>x. \<bar>rnd x - x\<bar> \<le> u * \<bar>x\<bar>" and u: "0 \<le> u" "u \<le> 1"
    and w: "rel_within l h y X" and X: "0 \<le> X" and l: "0 \<le> l"
  shows "rel_within (l * (1 - u)) (h * (1 + u)) (rnd y) X"
proof -
  have y: "0 \<le> y"
  proof -
    have "0 \<le> X * l" using X l by simp
    with w show ?thesis by (simp add: rel_within_def)
  qed
  note r = rnd_bounds[of rnd u y, OF rnd y]
  have "X * (l * (1 - u)) = (1 - u) * (X * l)" by simp
  also have "\<dots> \<le> (1 - u) * y" using w u by (intro mult_left_mono) (auto simp: rel_within_def)
  also have "\<dots> \<le> rnd y" using r by simp
  finally have lo: "X * (l * (1 - u)) \<le> rnd y" .
  have "rnd y \<le> (1 + u) * y" using r by simp
  also have "\<dots> \<le> (1 + u) * (X * h)" using w u by (intro mult_left_mono) (auto simp: rel_within_def)
  also have "\<dots> = X * (h * (1 + u))" by simp
  finally show ?thesis using lo by (simp add: rel_within_def)
qed

lemma rel_within_pos:
  assumes "rel_within l h y X" "0 < X" "0 < l"
  shows "0 < y"
proof -
  have "0 < X * l" using assms(2,3) by simp
  with assms(1) show ?thesis by (simp add: rel_within_def)
qed

lemma rel_within_nonneg:
  assumes "rel_within l h y X" "0 \<le> X" "0 \<le> l"
  shows "0 \<le> y"
proof -
  have "0 \<le> X * l" using assms(2,3) by simp
  with assms(1) show ?thesis by (simp add: rel_within_def)
qed

lemma rel_within_exact: "rel_within 1 1 X X"
  by (simp add: rel_within_def)

lemma rel_within_mult:
  assumes "rel_within l1 h1 y1 X1" "rel_within l2 h2 y2 X2"
    and "0 \<le> X1" "0 \<le> X2" "0 \<le> l1" "0 \<le> l2"
  shows "rel_within (l1 * l2) (h1 * h2) (y1 * y2) (X1 * X2)"
proof -
  have a: "0 \<le> X1 * l1" "0 \<le> X2 * l2" using assms by simp_all
  then have y: "0 \<le> y1" "0 \<le> y2" using assms(1,2) by (auto simp: rel_within_def)
  have "(X1 * l1) * (X2 * l2) \<le> y1 * y2"
    using assms(1,2) a by (intro mult_mono) (auto simp: rel_within_def)
  moreover have "y1 * y2 \<le> (X1 * h1) * (X2 * h2)"
    using assms(1,2) y by (intro mult_mono) (auto simp: rel_within_def intro: order_trans)
  ultimately show ?thesis by (simp add: rel_within_def algebra_simps)
qed

lemma rel_within_divide:
  assumes "rel_within l1 h1 y1 X1" "rel_within l2 h2 y2 X2"
    and "0 \<le> X1" "0 < X2" "0 \<le> l1" "0 < l2" "0 < h2"
  shows "rel_within (l1 / h2) (h1 / l2) (y1 / y2) (X1 / X2)"
proof -
  have y2: "0 < X2 * l2" "X2 * l2 \<le> y2" "y2 \<le> X2 * h2"
    using assms by (auto simp: rel_within_def)
  then have p: "0 < y2" by simp
  have y1: "0 \<le> X1 * l1" "X1 * l1 \<le> y1" "y1 \<le> X1 * h1"
    using assms by (auto simp: rel_within_def)
  have "(X1 * l1) / (X2 * h2) \<le> y1 / y2"
    using y1 y2 p by (intro frac_le) auto
  moreover have "y1 / y2 \<le> (X1 * h1) / (X2 * l2)"
    using y1 y2 p by (intro frac_le) auto
  ultimately show ?thesis by (simp add: rel_within_def)
qed

lemma rel_within_weaken:
  assumes "rel_within l h y X" "l' \<le> l" "h \<le> h'" "0 \<le> X"
  shows "rel_within l' h' y X"
proof -
  have "X * l' \<le> X * l" "X * h \<le> X * h'" using assms by (simp_all add: mult_left_mono)
  with assms(1) show ?thesis by (auto simp: rel_within_def)
qed

lemma rel_within_add:
  assumes "rel_within l h y1 X1" "rel_within l h y2 X2"
  shows "rel_within l h (y1 + y2) (X1 + X2)"
  using assms by (auto simp: rel_within_def algebra_simps)

lemma rel_within_sqrt:
  assumes "rel_within l h y X" "0 \<le> X" "0 \<le> l" "l \<le> 1" "1 \<le> h"
  shows "rel_within l h (sqrt y) (sqrt X)"
proof -
  have "l \<le> sqrt l" using assms(3,4)
    by (metis mult_left_le real_le_rsqrt power2_eq_square)
  then have "sqrt X * l \<le> sqrt X * sqrt l" using assms(2) by (intro mult_left_mono) auto
  also have "\<dots> = sqrt (X * l)" by (simp add: real_sqrt_mult)
  also have "\<dots> \<le> sqrt y" using assms(1) by (simp add: rel_within_def)
  finally have lo: "sqrt X * l \<le> sqrt y" .
  have "sqrt h \<le> h" using assms(5)
    by (metis mult_left_le_one_le order_trans real_le_lsqrt zero_le_one power2_eq_square
          less_eq_real_def mult_left_mono mult.right_neutral)
  have "sqrt y \<le> sqrt (X * h)" using assms(1) by (simp add: rel_within_def)
  also have "\<dots> = sqrt X * sqrt h" by (simp add: real_sqrt_mult)
  also have "\<dots> \<le> sqrt X * h" using \<open>sqrt h \<le> h\<close> assms(2) by (intro mult_left_mono) auto
  finally show ?thesis using lo by (simp add: rel_within_def)
qed

lemma rel_within_one_minus:
  assumes w: "rel_within l h b B" and B: "0 \<le> B" "B \<le> 2 / 9"
    and l: "0 < l" "l \<le> 1" and h: "1 \<le> h" "h \<le> 7 / 2"
  shows "rel_within (1 / h) (1 / l) (1 - b) (1 - B)"
proof -
  have b: "B * l \<le> b" "b \<le> B * h" using w by (simp_all add: rel_within_def)
  have "(1 - B) * (1 / h) \<le> 1 - B * h"
  proof -
    have "B * (h + 1) \<le> 1"
    proof -
      have "B * (h + 1) \<le> (2 / 9) * (9 / 2)" using B h by (intro mult_mono) auto
      then show ?thesis by simp
    qed
    then have "B * (h + 1) * (h - 1) \<le> 1 * (h - 1)" using h by (intro mult_right_mono) auto
    then have "1 - B \<le> h * (1 - B * h)" by (simp add: algebra_simps)
    then show ?thesis using h by (simp add: field_simps)
  qed
  also have "\<dots> \<le> 1 - b" using b by simp
  finally have lo: "(1 - B) * (1 / h) \<le> 1 - b" .
  have "1 - b \<le> 1 - B * l" using b by simp
  also have "\<dots> \<le> (1 - B) * (1 / l)"
  proof -
    have "B * (1 + l) \<le> 1"
    proof -
      have "B * (1 + l) \<le> (2 / 9) * 2" using B l by (intro mult_mono) auto
      then show ?thesis by simp
    qed
    then have "B * (1 + l) * (1 - l) \<le> 1 * (1 - l)" using l by (intro mult_right_mono) auto
    then have "l * (1 - B * l) \<le> 1 - B" by (simp add: algebra_simps)
    then show ?thesis using l by (simp add: field_simps)
  qed
  finally show ?thesis using lo by (simp add: rel_within_def)
qed

text \<open>The value the rounded arithmetic computes for the formula: each of the
  operations of \<open>pf_resample_limit\<close> moves the lower factor by \<open>1 - u\<close> and the
  upper factor by \<open>1 + u\<close> at most. For \<open>pop_z \<ge> 0\<close> and \<open>pop_err > 0\<close> no
  operation divides by 0 or takes the root of a negative number.\<close>

lemma fr_Some: "fr rnd (Some a) = Some (rnd a)"
  by (simp add: fr_def)

lemma rounded_limit_value:
  fixes rnd :: "real \<Rightarrow> real"
  assumes rnd: "\<And>x. \<bar>rnd x - x\<bar> \<le> u * \<bar>x\<bar>" and u: "0 \<le> u" "u \<le> 1 / 4"
    and k: "1 < k" and e: "0 < pop_err pf" and z: "0 \<le> pop_z pf"
  shows "\<exists>v. pf_resample_limit_rounded rnd pf k =
            (let n = int_conv \<lceil>v\<rceil>
             in if n < min_samples pf then min_samples pf
                else if n \<ge> max_samples pf then max_samples pf else n)
          \<and> rel_within ((1 - u) ^ 16 / (1 + u) ^ 7) ((1 + u) ^ 16 / (1 - u) ^ 7)
               v (fox_value (pop_err pf) (pop_z pf) k)"
proof -
  define L where "L = 1 - u"
  define U where "U = 1 + u"
  have L: "3 / 4 \<le> L" "L \<le> 1" "0 < L" and U: "1 \<le> U" "U \<le> 5 / 4" "0 < U"
    using u by (simp_all add: L_def U_def)
  have u1: "u \<le> 1" using u by simp
  note R = rel_within_rnd[of rnd u, OF rnd u(1) u1, folded L_def U_def]
  define m where "m = real_of_int k - 1"
  have m: "1 \<le> m" "0 < m" using k by (simp_all add: m_def)
  define B where "B = 2 / (9 * m)"
  have B: "0 \<le> B" "B \<le> 2 / 9" "0 < B" using m by (simp_all add: B_def field_simps)
  define dk where "dk = rnd m"
  have dk: "rel_within L U dk m"
    using R[OF rel_within_exact[of m]] m by (simp add: dk_def)
  define t1 where "t1 = rnd (9 * dk)"
  have "rel_within (1 * L) (1 * U) (9 * dk) (9 * m)"
    using rel_within_mult[OF rel_within_exact[of 9] dk] m L by simp
  then have t1: "rel_within (L * L) (U * U) t1 (9 * m)"
    using R[of "L" "U" "9 * dk" "9 * m"] m L by (simp add: t1_def)
  have t1p: "0 < t1"
    using rel_within_pos[OF t1] m L by simp
  define b where "b = rnd (2 / t1)"
  have "rel_within (1 / (U * U)) (1 / (L * L)) (2 / t1) (2 / (9 * m))"
    using rel_within_divide[OF rel_within_exact[of 2] t1] m L U by simp
  then have b: "rel_within (L / (U * U)) (U / (L * L)) b B"
    using R[of "1 / (U * U)" "1 / (L * L)" "2 / t1" B] B U L by (simp add: b_def B_def)
  have lb: "0 < L / (U * U)" "L / (U * U) \<le> 1" "1 \<le> U / (L * L)" "U / (L * L) \<le> 7 / 2"
  proof -
    show "0 < L / (U * U)" using L U by simp
    have "L \<le> 1 * 1" using L by simp
    also have "\<dots> \<le> U * U" using U by (intro mult_mono) auto
    finally show "L / (U * U) \<le> 1" using U by simp
    have "L * L \<le> 1 * 1" using L by (intro mult_mono) auto
    then have "L * L \<le> U" using U by simp
    then show "1 \<le> U / (L * L)" using L by simp
    have "(3 / 4) * (3 / 4) \<le> L * L" using L by (intro mult_mono) auto
    then have "U \<le> (7 / 2) * (L * L)" using U by simp
    then show "U / (L * L) \<le> 7 / 2" using L by (simp add: field_simps)
  qed
  have b0: "0 \<le> b"
    using rel_within_nonneg[OF b] B lb by simp
  define s where "s = rnd (sqrt b)"
  have "rel_within (L / (U * U)) (U / (L * L)) (sqrt b) (sqrt B)"
    using rel_within_sqrt[OF b] B lb by simp
  then have s: "rel_within (L / (U * U) * L) (U / (L * L) * U) s (sqrt B)"
    using R[of "L / (U * U)" "U / (L * L)" "sqrt b" "sqrt B"] B lb by (simp add: s_def)
  define c where "c = rnd (s * pop_z pf)"
  have "rel_within (L / (U * U) * L * 1) (U / (L * L) * U * 1) (s * pop_z pf) (sqrt B * pop_z pf)"
    using rel_within_mult[OF s rel_within_exact[of "pop_z pf"]] B z lb L by simp
  then have c: "rel_within (L / (U * U) * L * L) (U / (L * L) * U * U) c (sqrt B * pop_z pf)"
    using R[of "L / (U * U) * L" "U / (L * L) * U" "s * pop_z pf" "sqrt B * pop_z pf"] B z lb L
    by (simp add: c_def)
  define d1 where "d1 = rnd (1 - b)"
  have "rel_within (1 / (U / (L * L))) (1 / (L / (U * U))) (1 - b) (1 - B)"
    using rel_within_one_minus[OF b B(1,2) lb] .
  then have "rel_within (L * L / U) (U * U / L) (1 - b) (1 - B)" by simp
  then have d1: "rel_within (L * L / U * L) (U * U / L * U) d1 (1 - B)"
    using R[of "L * L / U" "U * U / L" "1 - b" "1 - B"] B L U by (simp add: d1_def)
  define lo where "lo = L * L * L / (U * U)"
  define hi where "hi = U * U * U / (L * L)"
  have lo: "0 < lo" and hi: "0 < hi" using L U by (simp_all add: lo_def hi_def)
  have c': "rel_within lo hi c (sqrt B * pop_z pf)"
    using c by (simp add: lo_def hi_def)
  have d1': "rel_within lo hi d1 (1 - B)"
  proof (rule rel_within_weaken[OF d1])
    have "L * L * L * 1 \<le> L * L * L * U" using L U by (intro mult_left_mono) auto
    then show "lo \<le> L * L / U * L" using U by (simp add: lo_def field_simps)
    have "U * U * U * L \<le> U * U * U * 1" using L U by (intro mult_left_mono) auto
    then show "U * U / L * U \<le> hi" using L by (simp add: hi_def field_simps)
    show "0 \<le> 1 - B" using B by simp
  qed
  define X where "X = 1 - B + sqrt B * pop_z pf"
  have X: "0 < X" "0 \<le> X"
  proof -
    have "0 \<le> sqrt B * pop_z pf" using B z by simp
    then show "0 < X" using B by (simp add: X_def)
    then show "0 \<le> X" by simp
  qed
  define x where "x = rnd (d1 + c)"
  have "rel_within lo hi (d1 + c) X"
    using rel_within_add[OF d1' c'] by (simp add: X_def)
  then have x: "rel_within (lo * L) (hi * U) x X"
    using R[of lo hi "d1 + c" X] X lo by (simp add: x_def)
  define d where "d = rnd (2 * pop_err pf)"
  have d: "rel_within L U d (2 * pop_err pf)"
    using R[OF rel_within_exact[of "2 * pop_err pf"]] e by (simp add: d_def)
  have dp: "0 < d"
    using rel_within_pos[OF d] e L by simp
  define Q where "Q = m / (2 * pop_err pf)"
  have Q: "0 \<le> Q" using m e by (simp add: Q_def)
  define q where "q = rnd (m / d)"
  have "rel_within (1 / U) (1 / L) (m / d) Q"
    using rel_within_divide[OF rel_within_exact[of m] d] m e L U by (simp add: Q_def)
  then have q: "rel_within (1 / U * L) (1 / L * U) q Q"
    using R[of "1 / U" "1 / L" "m / d" Q] Q U by (simp add: q_def)
  define xl where "xl = lo * L"
  define xh where "xh = hi * U"
  have xl: "0 \<le> xl" using lo L by (simp add: xl_def)
  note x' = x[folded xl_def xh_def]
  define p1 where "p1 = rnd (q * x)"
  have "rel_within (1 / U * L * xl) (1 / L * U * xh) (q * x) (Q * X)"
    using rel_within_mult[OF q x'] Q X xl L U by simp
  then have p1: "rel_within (1 / U * L * xl * L) (1 / L * U * xh * U) p1 (Q * X)"
    using R[of "1 / U * L * xl" "1 / L * U * xh" "q * x" "Q * X"] Q X xl L U by (simp add: p1_def)
  define p2 where "p2 = rnd (p1 * x)"
  have "rel_within (1 / U * L * xl * L * xl) (1 / L * U * xh * U * xh) (p1 * x) (Q * X * X)"
    using rel_within_mult[OF p1 x'] Q X xl L U by simp
  then have p2: "rel_within (1 / U * L * xl * L * xl * L) (1 / L * U * xh * U * xh * U) p2 (Q * X * X)"
    using R[of "1 / U * L * xl * L * xl" "1 / L * U * xh * U * xh" "p1 * x" "Q * X * X"] Q X xl L U
    by (simp add: p2_def)
  define p3 where "p3 = rnd (p2 * x)"
  have "rel_within (1 / U * L * xl * L * xl * L * xl) (1 / L * U * xh * U * xh * U * xh)
          (p2 * x) (Q * X * X * X)"
    using rel_within_mult[OF p2 x'] Q X xl L U by simp
  then have p3: "rel_within (1 / U * L * xl * L * xl * L * xl * L)
                   (1 / L * U * xh * U * xh * U * xh * U) p3 (Q * X * X * X)"
    using R[of "1 / U * L * xl * L * xl * L * xl" "1 / L * U * xh * U * xh * U * xh"
            "p2 * x" "Q * X * X * X"] Q X xl L U
    by (simp add: p3_def)
  have fl: "1 / U * L * xl * L * xl * L * xl * L = L ^ 16 / U ^ 7"
    using L U by (simp add: xl_def lo_def field_simps power_numeral_reduce)
  have fh: "1 / L * U * xh * U * xh * U * xh * U = U ^ 16 / L ^ 7"
    using L U by (simp add: xh_def hi_def field_simps power_numeral_reduce)
  have V: "Q * X * X * X = fox_value (pop_err pf) (pop_z pf) k"
    by (simp add: fox_value_def Q_def X_def B_def m_def power3_eq_cube)
  have "rel_within (L ^ 16 / U ^ 7) (U ^ 16 / L ^ 7) p3 (fox_value (pop_err pf) (pop_z pf) k)"
    using p3 by (simp only: fl fh V)
  then have res: "rel_within ((1 - u) ^ 16 / (1 + u) ^ 7) ((1 + u) ^ 16 / (1 - u) ^ 7)
               p3 (fox_value (pop_err pf) (pop_z pf) k)"
    by (simp only: L_def U_def)
  have t1n: "t1 \<noteq> 0" and dn: "d \<noteq> 0" using t1p dp by simp_all
  have bn: "\<not> b < 0" using b0 by simp
  have km: "real_of_int k - 1 = m" "real_of_int (k - 1) = m" by (simp_all add: m_def)
  have "pf_resample_limit_rounded rnd pf k =
          (let n = int_conv \<lceil>p3\<rceil>
           in if n < min_samples pf then min_samples pf
              else if n \<ge> max_samples pf then max_samples pf else n)"
    using k t1n dn bn
    unfolding pf_resample_limit_rounded_def Let_def
    by (simp add: fr_Some fsub_def fmul_def fdiv_def fadd_def fsqrt_def int_of_ceil_def km
          dk_def[symmetric] t1_def[symmetric] b_def[symmetric] s_def[symmetric]
          c_def[symmetric] d1_def[symmetric] x_def[symmetric] d_def[symmetric]
          q_def[symmetric] p1_def[symmetric] p2_def[symmetric] p3_def[symmetric])
  with res show ?thesis by blast
qed

lemma clamp_spec_samples:
  "min_samples pf \<le> max_samples pf \<Longrightarrow> clamp_samples pf n = clamp_spec pf n"
  by (simp add: clamp_samples_def clamp_spec_def Let_def max_def)

lemma rnd_nonneg:
  fixes rnd :: "real \<Rightarrow> real"
  assumes "\<And>x. \<bar>rnd x - x\<bar> \<le> u * \<bar>x\<bar>"
  shows "0 \<le> u"
proof -
  have "0 \<le> \<bar>rnd 1 - 1\<bar>" by simp
  also have "\<dots> \<le> u * \<bar>1\<bar>" by (rule assms)
  finally show ?thesis by simp
qed

lemma rnd_exact:
  fixes rnd :: "real \<Rightarrow> real"
  assumes "\<And>x. \<bar>rnd x - x\<bar> \<le> u * \<bar>x\<bar>" and "u = 0"
  shows "rnd = (\<lambda>x. x)"
proof
  fix x show "rnd x = x" using assms(1)[of x] assms(2) by simp
qed

lemma pf_resample_limit_rounded_clamp:
  "1 < k \<Longrightarrow> \<exists>n. pf_resample_limit_rounded rnd pf k = clamp_samples pf n"
  by (auto simp: pf_resample_limit_rounded_def clamp_samples_def Let_def)

lemma pf_resample_limit_rounded_range:
  assumes "min_samples pf \<le> max_samples pf"
  shows "min_samples pf \<le> pf_resample_limit_rounded rnd pf k
       \<and> pf_resample_limit_rounded rnd pf k \<le> max_samples pf"
proof (cases "k \<le> 1")
  case True
  then show ?thesis using assms by (simp add: pf_resample_limit_rounded_def)
next
  case False
  then obtain n where "pf_resample_limit_rounded rnd pf k = clamp_samples pf n"
    using pf_resample_limit_rounded_clamp[of k rnd pf] by auto
  then show ?thesis using clamp_samples_range[OF assms] by simp
qed

lemma rounded_limit_clamp_spec:
  fixes rnd :: "real \<Rightarrow> real"
  assumes mm: "min_samples pf \<le> max_samples pf"
    and rnd: "\<And>x. \<bar>rnd x - x\<bar> \<le> u * \<bar>x\<bar>" and u: "u \<le> 1 / 4"
    and k: "1 < k" and e: "0 < pop_err pf" and z: "0 \<le> pop_z pf"
  shows "\<exists>v. pf_resample_limit_rounded rnd pf k = clamp_spec pf (int_conv \<lceil>v\<rceil>)
           \<and> fox_value (pop_err pf) (pop_z pf) k * ((1 - u) ^ 16 / (1 + u) ^ 7) \<le> v
           \<and> v \<le> fox_value (pop_err pf) (pop_z pf) k * ((1 + u) ^ 16 / (1 - u) ^ 7)"
proof -
  obtain v where v: "pf_resample_limit_rounded rnd pf k =
            (let n = int_conv \<lceil>v\<rceil>
             in if n < min_samples pf then min_samples pf
                else if n \<ge> max_samples pf then max_samples pf else n)"
     "rel_within ((1 - u) ^ 16 / (1 + u) ^ 7) ((1 + u) ^ 16 / (1 - u) ^ 7)
               v (fox_value (pop_err pf) (pop_z pf) k)"
    using rounded_limit_value[OF rnd rnd_nonneg[OF rnd] u k e z] by blast
  have "pf_resample_limit_rounded rnd pf k = clamp_samples pf (int_conv \<lceil>v\<rceil>)"
    using v(1) by (simp add: clamp_samples_def Let_def)
  then have "pf_resample_limit_rounded rnd pf k = clamp_spec pf (int_conv \<lceil>v\<rceil>)"
    using clamp_spec_samples[OF mm] by simp
  with v(2) show ?thesis unfolding rel_within_def by blast
qed

lemma round_double_hundredth:
  "round_double (1 / 100) = 5764607523034235 / 576460752303423488"
  by (simp add: rd_defs)

lemma fox_value_double_3:
  "fox_value (5764607523034235 / 576460752303423488) 3 3
     = 4913 * 576460752303423488 / (729 * 5764607523034235)"
  by (simp add: fox_value_def sqrt_ninth power3_eq_cube)

lemma pf_resample_limit_rounded_mono:
  fixes rnd :: "real \<Rightarrow> real"
  assumes mm: "min_samples pf \<le> max_samples pf"
    and rnd: "\<And>x. \<bar>rnd x - x\<bar> \<le> u * \<bar>x\<bar>" and u: "u \<le> 1 / 4"
    and e: "0 < pop_err pf" and z: "0 \<le> pop_z pf" and kk: "k \<le> k'"
    and gap: "fox_value (pop_err pf) (pop_z pf) k * ((1 + u) ^ 16 / (1 - u) ^ 7)
                \<le> fox_value (pop_err pf) (pop_z pf) k' * ((1 - u) ^ 16 / (1 + u) ^ 7)"
    and fits: "\<lceil>fox_value (pop_err pf) (pop_z pf) k' * ((1 + u) ^ 16 / (1 - u) ^ 7)\<rceil> \<le> INT_MAX"
  shows "pf_resample_limit_rounded rnd pf k \<le> pf_resample_limit_rounded rnd pf k'"
proof (cases "k \<le> 1")
  case True
  then have "pf_resample_limit_rounded rnd pf k = min_samples pf"
    by (simp add: pf_resample_limit_rounded_def)
  then show ?thesis using pf_resample_limit_rounded_range[OF mm, of rnd k'] by simp
next
  case False
  then have k: "1 < k" and k': "1 < k'" using kk by auto
  obtain v where v: "pf_resample_limit_rounded rnd pf k = clamp_spec pf (int_conv \<lceil>v\<rceil>)"
      "v \<le> fox_value (pop_err pf) (pop_z pf) k * ((1 + u) ^ 16 / (1 - u) ^ 7)"
    using rounded_limit_clamp_spec[OF mm rnd u k e z] by blast
  obtain v' where v': "pf_resample_limit_rounded rnd pf k' = clamp_spec pf (int_conv \<lceil>v'\<rceil>)"
      "fox_value (pop_err pf) (pop_z pf) k' * ((1 - u) ^ 16 / (1 + u) ^ 7) \<le> v'"
      "v' \<le> fox_value (pop_err pf) (pop_z pf) k' * ((1 + u) ^ 16 / (1 - u) ^ 7)"
    using rounded_limit_clamp_spec[OF mm rnd u k' e z] by blast
  have "v \<le> v'" using v(2) gap v'(2) by linarith
  then have "\<lceil>v\<rceil> \<le> \<lceil>v'\<rceil>" by (rule ceiling_mono)
  moreover have "\<lceil>v'\<rceil> \<le> INT_MAX" using ceiling_mono[OF v'(3)] fits by linarith
  ultimately have "int_conv \<lceil>v\<rceil> \<le> int_conv \<lceil>v'\<rceil>" by (rule int_conv_mono)
  then have "clamp_samples pf (int_conv \<lceil>v\<rceil>) \<le> clamp_samples pf (int_conv \<lceil>v'\<rceil>)"
    by (rule clamp_samples_mono[OF mm])
  then show ?thesis using v(1) v'(1) clamp_spec_samples[OF mm] by simp
qed

lemma fox_value_kld_x:
  "fox_value err z k = real_of_int (k - 1) * kld_x z (real_of_int (k - 1)) ^ 3 / (2 * err)"
  by (simp add: fox_value_def kld_x_def)

lemma kld_x_bounds:
  assumes "0 \<le> z" "1 \<le> m"
  shows "7 / 9 \<le> kld_x z m \<and> kld_x z m \<le> 1 + z"
proof -
  have a: "2 / (9 * m) \<le> 2 / 9" "0 \<le> 2 / (9 * m)" using assms(2) by (simp_all add: field_simps)
  have "2 / (9 * m) \<le> 1" using a by simp
  then have "sqrt (2 / (9 * m)) \<le> 1" by simp
  then have b: "sqrt (2 / (9 * m)) * z \<le> 1 * z" using assms(1) by (intro mult_right_mono) auto
  have c: "0 \<le> sqrt (2 / (9 * m)) * z" using assms a by simp
  show ?thesis unfolding kld_x_def using a b c by linarith
qed

text \<open>For \<open>0 \<le> z \<le> 4\<close> the derivative of \<open>m \<mapsto> m * x(m)^3\<close> is at least \<open>3 / 10\<close> from
  \<open>m = 1\<close> on.\<close>

lemma kld_x_growth:
  assumes z: "0 \<le> z" "z \<le> 4" and a: "1 \<le> a" and ab: "a \<le> b"
  shows "a * kld_x z a ^ 3 + 3 / 10 * (b - a) \<le> b * kld_x z b ^ 3"
proof -
  have "a * kld_x z a ^ 3 - 3 / 10 * a \<le> b * kld_x z b ^ 3 - 3 / 10 * b"
  proof (rule DERIV_nonneg_imp_nondecreasing[OF ab])
    fix m assume am: "a \<le> m" and "m \<le> b"
    then have m: "0 < m" "1 \<le> m" using a by simp_all
    define s where "s = sqrt (2 / (9 * m))"
    have s2: "s * s = 2 / (9 * m)" using m by (simp add: s_def)
    define F where "F = 1 + 2 * (2 / (9 * m)) - z * sqrt (2 / (9 * m)) / 2"
    have "0 \<le> 2 * ((s - z / 8) * (s - z / 8))" by simp
    moreover have "z * z \<le> 4 * 4" using z by (intro mult_mono) auto
    ultimately have "1 / 2 \<le> 1 + 2 * (s * s) - z * s / 2" by (simp add: algebra_simps)
    then have F: "1 / 2 \<le> F" unfolding s2 unfolding s_def F_def .
    have x: "7 / 9 \<le> kld_x z m" using kld_x_bounds[OF z(1) m(2)] by simp
    have "(7 / 9) * (7 / 9) \<le> kld_x z m * kld_x z m" using x by (intro mult_mono) auto
    then have x2: "49 / 81 \<le> (kld_x z m)\<^sup>2" by (simp add: power2_eq_square)
    have "(49 / 81) * (1 / 2) \<le> (kld_x z m)\<^sup>2 * F" using x2 F by (intro mult_mono) auto
    then have y: "0 \<le> (kld_x z m)\<^sup>2 * F - 3 / 10" by simp
    have "((\<lambda>m. m * kld_x z m ^ 3 - 3 / 10 * m) has_real_derivative
            (kld_x z m)\<^sup>2 * F - 3 / 10) (at m)"
      unfolding F_def
      by (rule derivative_eq_intros kld_x_deriv[OF m(1)] refl | simp)+
    with y show "\<exists>y. ((\<lambda>m. m * kld_x z m ^ 3 - 3 / 10 * m) has_real_derivative y) (at m) \<and> 0 \<le> y"
      by blast
  qed
  then show ?thesis by (simp add: algebra_simps diff_divide_distrib)
qed

lemma rounding_factors_mono:
  fixes u u0 :: real
  assumes "0 \<le> u" "u \<le> u0" "u0 < 1"
  shows "(1 + u) ^ 16 / (1 - u) ^ 7 \<le> (1 + u0) ^ 16 / (1 - u0) ^ 7
       \<and> (1 - u0) ^ 16 / (1 + u0) ^ 7 \<le> (1 - u) ^ 16 / (1 + u) ^ 7"
proof
  have "(1 + u) ^ 16 \<le> (1 + u0) ^ 16" by (rule power_mono) (use assms in auto)
  moreover have "(1 - u0) ^ 7 \<le> (1 - u) ^ 7" by (rule power_mono) (use assms in auto)
  moreover have "0 < (1 - u0) ^ 7" using assms by simp
  moreover have "0 \<le> (1 + u) ^ 16" using assms by simp
  ultimately show "(1 + u) ^ 16 / (1 - u) ^ 7 \<le> (1 + u0) ^ 16 / (1 - u0) ^ 7"
    by (intro frac_le) auto
  have "(1 - u0) ^ 16 \<le> (1 - u) ^ 16" by (rule power_mono) (use assms in auto)
  moreover have "(1 + u) ^ 7 \<le> (1 + u0) ^ 7" by (rule power_mono) (use assms in auto)
  moreover have "0 < (1 + u) ^ 7" using assms by (intro zero_less_power) auto
  moreover have "0 \<le> (1 - u0) ^ 16" using assms by simp
  ultimately show "(1 - u0) ^ 16 / (1 + u0) ^ 7 \<le> (1 - u) ^ 16 / (1 + u) ^ 7"
    by (intro frac_le) auto
qed

text \<open>For \<open>0 \<le> z \<le> 4\<close> and a rounding as fine as that of a double, the values of the
  formula at two bucket counts of an \<open>int\<close> lie farther apart than the rounding can
  move them.\<close>

lemma fox_value_gap:
  assumes e: "0 < err" and z: "0 \<le> z" "z \<le> 4" and u: "0 \<le> u" "u \<le> 1 / 2 ^ 53"
    and k: "1 < k" "k < k'" "k' \<le> INT_MAX"
  shows "fox_value err z k * ((1 + u) ^ 16 / (1 - u) ^ 7)
           \<le> fox_value err z k' * ((1 - u) ^ 16 / (1 + u) ^ 7)"
proof -
  define m where "m = real_of_int (k - 1)"
  define m' where "m' = real_of_int (k' - 1)"
  define G where "G = m * kld_x z m ^ 3"
  define G' where "G' = m' * kld_x z m' ^ 3"
  define H0 :: real where "H0 = (1 + 1 / 2 ^ 53) ^ 16 / (1 - 1 / 2 ^ 53) ^ 7"
  define L0 :: real where "L0 = (1 - 1 / 2 ^ 53) ^ 16 / (1 + 1 / 2 ^ 53) ^ 7"
  define hi where "hi = (1 + u) ^ 16 / (1 - u) ^ 7"
  define lo where "lo = (1 - u) ^ 16 / (1 + u) ^ 7"
  have m: "1 \<le> m" "m + 1 \<le> m'" "m \<le> 2 ^ 31" using k by (simp_all add: m_def m'_def INT_MAX_def)
  have f: "hi \<le> H0" "L0 \<le> lo"
    using rounding_factors_mono[OF u(1) u(2)] by (simp_all add: hi_def lo_def H0_def L0_def)
  have L0: "0 \<le> L0" by (simp add: L0_def)
  have hi0: "0 \<le> hi" using u by (simp add: hi_def)
  have x: "7 / 9 \<le> kld_x z m" "kld_x z m \<le> 5" using kld_x_bounds[OF z(1) m(1)] z by simp_all
  have "kld_x z m ^ 3 \<le> 5 ^ 3" using x by (intro power_mono) auto
  then have "m * kld_x z m ^ 3 \<le> 2 ^ 31 * 5 ^ 3" using m x by (intro mult_mono) auto
  then have G: "G \<le> 125 * 2 ^ 31" "0 \<le> G" using m x by (simp_all add: G_def)
  have "G + 3 / 10 * (m' - m) \<le> G'"
    unfolding G_def G'_def using m by (intro kld_x_growth[OF z]) auto
  moreover have "3 / 10 * 1 \<le> 3 / 10 * (m' - m)" using m by (intro mult_left_mono) auto
  ultimately have G': "G + 3 / 10 \<le> G'" by linarith
  have n: "125 * 2 ^ 31 * (H0 - L0) \<le> 3 / 10 * L0"
    unfolding H0_def L0_def by (simp add: power_divide field_simps)
  have HL: "0 \<le> H0 - L0"
    unfolding H0_def L0_def by (simp add: power_divide field_simps)
  have "G * hi \<le> G * H0" using G f by (intro mult_left_mono) auto
  also have "\<dots> = G * L0 + G * (H0 - L0)" by (simp add: algebra_simps)
  also have "\<dots> \<le> G * L0 + 125 * 2 ^ 31 * (H0 - L0)" by (intro add_left_mono mult_right_mono) (use G HL in auto)
  also have "\<dots> \<le> G * L0 + 3 / 10 * L0" using n by simp
  also have "\<dots> = (G + 3 / 10) * L0" by (simp add: algebra_simps)
  also have "\<dots> \<le> G' * L0" using G' L0 by (intro mult_right_mono) auto
  also have "\<dots> \<le> G' * lo"
  proof -
    have "0 \<le> G'" using G' G by simp
    then show ?thesis using f by (intro mult_left_mono) auto
  qed
  finally have "G * hi \<le> G' * lo" .
  then have "G * hi / (2 * err) \<le> G' * lo / (2 * err)" using e by (simp add: divide_right_mono)
  then show ?thesis
    unfolding fox_value_kld_x G_def G'_def m_def m'_def hi_def lo_def by (simp add: field_simps)
qed

lemma pf_resample_limit_double_mono:
  fixes rnd :: "real \<Rightarrow> real"
  assumes mm: "min_samples pf \<le> max_samples pf"
    and rnd: "\<And>x. \<bar>rnd x - x\<bar> \<le> u * \<bar>x\<bar>" and u: "u \<le> 1 / 2 ^ 53"
    and e: "0 < pop_err pf" and z: "0 \<le> pop_z pf" "pop_z pf \<le> 4"
    and kk: "k \<le> k'" "k' \<le> INT_MAX"
    and fits: "\<lceil>fox_value (pop_err pf) (pop_z pf) k' * ((1 + u) ^ 16 / (1 - u) ^ 7)\<rceil> \<le> INT_MAX"
  shows "pf_resample_limit_rounded rnd pf k \<le> pf_resample_limit_rounded rnd pf k'"
proof -
  have u4: "u \<le> 1 / 4" using u by simp
  consider "k \<le> 1" | "k = k'" | "1 < k" "k < k'" using kk by linarith
  then show ?thesis
  proof cases
    case 1
    then have "pf_resample_limit_rounded rnd pf k = min_samples pf"
      by (simp add: pf_resample_limit_rounded_def)
    then show ?thesis using pf_resample_limit_rounded_range[OF mm, of rnd k'] by simp
  next
    case 2
    then show ?thesis by simp
  next
    case 3
    show ?thesis
      by (rule pf_resample_limit_rounded_mono[OF mm rnd u4 e z(1) kk(1)
                 fox_value_gap[OF e z rnd_nonneg[OF rnd] u 3 kk(2)] fits])
  qed
qed

text \<open>The rounding of a number in \<open>[1/4, 1/2)\<close>, and the run of the double
  arithmetic on three buckets with \<open>pop_z = 3\<close> and
  \<open>pop_err = 0.011232281664380426\<close>: the square root of the double nearest to
  \<open>1/9\<close> rounds to \<open>6004799503160661 / 2^54\<close>, its product with 3 rounds to 1, and
  the last product rounds to 600, where the value of the formula is above 600.\<close>

lemma round_even_near:
  assumes "\<bar>t - real_of_int n\<bar> < 1 / 2"
  shows "round_even t = n"
proof (cases "real_of_int n \<le> t")
  case True
  then have "\<lfloor>t\<rfloor> = n" using assms by (simp add: floor_eq_iff abs_less_iff)
  then show ?thesis using assms True by (simp add: round_even_def abs_less_iff)
next
  case False
  then have "\<lfloor>t\<rfloor> = n - 1" using assms by (simp add: floor_eq_iff abs_less_iff)
  then show ?thesis using assms False by (simp add: round_even_def abs_less_iff)
qed

lemma round_double_quarter:
  assumes "1 / 4 \<le> x" "x < 1 / 2" "\<bar>x * 2 ^ 54 - real_of_int n\<bar> < 1 / 2"
  shows "round_double x = real_of_int n / 2 ^ 54"
proof -
  have "binade (4 * x) = 0" using assms(1,2) by (simp add: binade.simps)
  then have "binade (2 * x) = - 1" using assms(1,2) by (subst binade.simps) simp
  then have b: "binade x = - 2" using assms(1,2) by (subst binade.simps) simp
  have x: "x \<noteq> 0" "\<bar>x\<bar> = x" "sgn x = 1" using assms(1) by simp_all
  show ?thesis
    unfolding round_double_def Let_def x b using x(1) round_even_near[OF assms(3)]
    by (simp add: pow2_def)
qed

lemma rd_sqrt_ninth:
  "round_double (sqrt (2001599834386887 / 18014398509481984))
     = 6004799503160661 / 18014398509481984"
proof -
  define x :: real where "x = sqrt (2001599834386887 / 18014398509481984)"
  have lo: "(6004799503160661 - 1 / 2) / 2 ^ 54 < x"
    unfolding x_def by (rule real_less_rsqrt) (simp add: power2_eq_square)
  have hi: "x < (6004799503160661 + 1 / 2) / 2 ^ 54"
    unfolding x_def by (rule real_less_lsqrt) (simp_all add: power2_eq_square)
  have "round_double x = real_of_int 6004799503160661 / 2 ^ 54"
  proof (rule round_double_quarter)
    show "1 / 4 \<le> x" using lo by simp
    show "x < 1 / 2" using hi by simp
    have p: "(2::real) ^ 54 = 18014398509481984" by simp
    have a: "6004799503160661 - 1 / 2 < x * 18014398509481984"
      using lo by (simp add: field_simps)
    have b: "x * 18014398509481984 < 6004799503160661 + 1 / 2"
      using hi by (simp add: field_simps)
    have q: "real_of_int 6004799503160661 = 6004799503160661" by simp
    show "\<bar>x * 2 ^ 54 - real_of_int 6004799503160661\<bar> < 1 / 2"
      unfolding p q using a b by linarith
  qed
  then show ?thesis by (simp add: x_def)
qed

lemma rd_ninth: "round_double (1 / 9) = 2001599834386887 / 18014398509481984"
  by (simp add: rd_defs)

lemma rd_small: "round_double 2 = 2" "round_double 18 = 18"
  by (simp_all add: rd_defs)

lemma tight_rounded: "pf_resample_limit_rounded round_double pf_tight 3 = 600"
  unfolding pf_resample_limit_rounded_def pf_tight_def pf_default_def ex_pf_def
  apply (simp add: fr_Some fp_defs fr_def rd_small rd_ninth rd_sqrt_ninth)
  apply (simp add: rd_defs int_conv_def INT_MIN_def INT_MAX_def)
  done

lemma tight_spec: "kld_limit_spec pf_tight 3 = 601"
  by (simp add: kld_limit_spec_unfold fox_bound_unfold pf_tight_def pf_default_def ex_pf_def
        power3_eq_cube ceiling_eq_iff sqrt_ninth)

lemma fox_value_double_9:
  "fox_value (5764607523034235 / 576460752303423488) 3 9
     = 595508 * 576460752303423488 / (46656 * 5764607523034235)"
  by (simp add: fox_value_def sqrt_36th power3_eq_cube)

lemma pf_alloc_double_fields:
  "pop_err pf_alloc_double = 5764607523034235 / 576460752303423488"
  "pop_z pf_alloc_double = 3" "min_samples pf_alloc_double = 100"
  "max_samples pf_alloc_double = 5000"
  by (simp_all add: pf_alloc_double_def pf_default_def ex_pf_def round_double_hundredth)

text \<open>With the parameters of \<open>pf_alloc\<close> the double arithmetic gives the limits 674 and
  1277 for three and nine buckets: the value of the formula is far enough from an
  integer.\<close>

lemma alloc_double_limits:
  "pf_resample_limit_rounded round_double pf_alloc_double 3 = 674
   \<and> pf_resample_limit_rounded round_double pf_alloc_double 9 = 1277"
proof
  note p = pf_alloc_double_fields
  have h: "min_samples pf_alloc_double \<le> max_samples pf_alloc_double"
       "0 < pop_err pf_alloc_double" "0 \<le> pop_z pf_alloc_double"
       "(1 / 2 ^ 53 :: real) \<le> 1 / 4"
    by (simp_all add: p)
  obtain v :: real where v: "pf_resample_limit_rounded round_double pf_alloc_double 3
               = clamp_spec pf_alloc_double (int_conv \<lceil>v\<rceil>)"
     "4913 * 576460752303423488 / (729 * 5764607523034235)
                * ((1 - 1 / 2 ^ 53) ^ 16 / (1 + 1 / 2 ^ 53) ^ 7) \<le> v"
     "v \<le> 4913 * 576460752303423488 / (729 * 5764607523034235)
                * ((1 + 1 / 2 ^ 53) ^ 16 / (1 - 1 / 2 ^ 53) ^ 7)"
    using rounded_limit_clamp_spec[OF h(1) round_double_error h(4) _ h(2,3), of 3]
    unfolding p fox_value_double_3 by auto
  have "(673::real) < 4913 * 576460752303423488 / (729 * 5764607523034235)
                * ((1 - 1 / 2 ^ 53) ^ 16 / (1 + 1 / 2 ^ 53) ^ 7)"
    by (simp add: power_divide field_simps)
  then have "673 < v" using v(2) by (rule less_le_trans)
  moreover have "4913 * 576460752303423488 / (729 * 5764607523034235)
                * ((1 + 1 / 2 ^ 53) ^ 16 / (1 - 1 / 2 ^ 53) ^ 7) \<le> (674::real)"
    by (simp add: power_divide field_simps)
  then have "v \<le> 674" using v(3) by simp
  ultimately have "\<lceil>v\<rceil> = 674" by (simp add: ceiling_eq_iff)
  then show "pf_resample_limit_rounded round_double pf_alloc_double 3 = 674"
    using v(1) by (simp add: clamp_spec_def int_conv_def INT_MIN_def INT_MAX_def p)
  obtain w :: real where w: "pf_resample_limit_rounded round_double pf_alloc_double 9
               = clamp_spec pf_alloc_double (int_conv \<lceil>w\<rceil>)"
     "595508 * 576460752303423488 / (46656 * 5764607523034235)
                * ((1 - 1 / 2 ^ 53) ^ 16 / (1 + 1 / 2 ^ 53) ^ 7) \<le> w"
     "w \<le> 595508 * 576460752303423488 / (46656 * 5764607523034235)
                * ((1 + 1 / 2 ^ 53) ^ 16 / (1 - 1 / 2 ^ 53) ^ 7)"
    using rounded_limit_clamp_spec[OF h(1) round_double_error h(4) _ h(2,3), of 9]
    unfolding p fox_value_double_9 by auto
  have "(1276::real) < 595508 * 576460752303423488 / (46656 * 5764607523034235)
                * ((1 - 1 / 2 ^ 53) ^ 16 / (1 + 1 / 2 ^ 53) ^ 7)"
    by (simp add: power_divide field_simps)
  then have "1276 < w" using w(2) by (rule less_le_trans)
  moreover have "595508 * 576460752303423488 / (46656 * 5764607523034235)
                * ((1 + 1 / 2 ^ 53) ^ 16 / (1 - 1 / 2 ^ 53) ^ 7) \<le> (1277::real)"
    by (simp add: power_divide field_simps)
  then have "w \<le> 1277" using w(3) by simp
  ultimately have "\<lceil>w\<rceil> = 1277" by (simp add: ceiling_eq_iff)
  then show "pf_resample_limit_rounded round_double pf_alloc_double 9 = 1277"
    using w(1) by (simp add: clamp_spec_def int_conv_def INT_MIN_def INT_MAX_def p)
qed

text \<open>C2, as stated, fails on a filter whose \<open>min_samples\<close> exceeds \<open>max_samples\<close>:
  with the bounds 1000 and 500 and three buckets the formula gives 674, the function
  returns \<open>min_samples = 1000\<close>, and the stated limit is \<open>max_samples = 500\<close>. It
  also fails where the ceiling does not fit in an \<open>int\<close>: with the parameters of
  \<open>pf_alloc\<close> and fifty million buckets the conversion gives \<open>INT_MIN\<close> and the
  function returns \<open>min_samples = 100\<close>, where the stated limit is
  \<open>max_samples = 5000\<close>. And it fails by the rounding of the double arithmetic: with
  \<open>pop_z = 3\<close>, \<open>pop_err = 0.011232281664380426\<close> and three buckets the value of the
  formula lies above 600, so that the stated limit is 601, and the code computes
  \<open>600.0\<close> and returns 600.\<close>

theorem pf_resample_limit_min_above_max:
  "pf_resample_limit pf_min_above_max 3 = 1000 \<and> kld_limit_spec pf_min_above_max 3 = 500
   \<and> pf_resample_limit pf_default 50000000 = 100 \<and> kld_limit_spec pf_default 50000000 = 5000
   \<and> pf_resample_limit_rounded round_double pf_tight 3 = 600 \<and> kld_limit_spec pf_tight 3 = 601"
proof -
  have a: "pf_resample_limit pf_min_above_max 3 = 1000 \<and> kld_limit_spec pf_min_above_max 3 = 500"
    by (simp add: pf_resample_limit_fox kld_limit_spec_unfold pf_min_above_max_def ex_pf_def
          fox_3 clamp_samples_def int_conv_def INT_MIN_def INT_MAX_def)
  have b: "pf_resample_limit pf_default 50000000 = 100"
    using fox_50000000
    by (simp add: pf_resample_limit_fox pf_default_def ex_pf_def clamp_samples_def
          int_conv_def INT_MIN_def)
  have c: "kld_limit_spec pf_default 50000000 = 5000"
    using fox_50000000
    by (simp add: kld_limit_spec_unfold pf_default_def ex_pf_def INT_MAX_def Let_def max_def)
  from a b c tight_rounded tight_spec show ?thesis by simp
qed

text \<open>C2 (amended). For every filter with \<open>min_samples \<le> max_samples\<close>,
  \<open>pf_resample_limit\<close> returns \<open>min_samples\<close> when \<open>k \<le> 1\<close>. Otherwise, if
  \<open>pop_err > 0\<close>, \<open>pop_z \<ge> 0\<close> and every double operation has a relative error of at
  most \<open>u \<le> 1/4\<close> (\<open>u = 2^-53\<close> for a double), it returns \<open>(int) ceil(v)\<close> clamped
  below by \<open>min_samples\<close>, and \<open>max_samples\<close> whenever that value reaches
  \<open>max_samples\<close>, for a number \<open>v\<close> between the value of the formula of Fox times
  \<open>(1 - u)^16 / (1 + u)^7\<close> and that value times \<open>(1 + u)^16 / (1 - u)^7\<close>; the
  conversion \<open>(int)\<close> of a ceiling outside the range of \<open>int\<close> gives \<open>INT_MIN\<close>.
  In exact arithmetic (\<open>u = 0\<close>), with \<open>pop_err \<noteq> 0\<close> and the ceiling of the formula
  in the range of \<open>int\<close>, the result is the stated one: the ceiling of the formula
  with the two clamps.\<close>

theorem pf_resample_limit_clamped_formula:
  fixes rnd :: "real \<Rightarrow> real"
  assumes "min_samples pf \<le> max_samples pf"
    and "\<And>x. \<bar>rnd x - x\<bar> \<le> u * \<bar>x\<bar>" and "u \<le> 1 / 4"
  shows "(k \<le> 1 \<longrightarrow> pf_resample_limit_rounded rnd pf k = min_samples pf)
       \<and> (1 < k \<and> 0 < pop_err pf \<and> 0 \<le> pop_z pf \<longrightarrow>
            (\<exists>v. pf_resample_limit_rounded rnd pf k = clamp_spec pf (int_conv \<lceil>v\<rceil>)
               \<and> fox_value (pop_err pf) (pop_z pf) k * ((1 - u) ^ 16 / (1 + u) ^ 7) \<le> v
               \<and> v \<le> fox_value (pop_err pf) (pop_z pf) k * ((1 + u) ^ 16 / (1 - u) ^ 7)))
       \<and> (u = 0 \<longrightarrow> pf_resample_limit_rounded rnd pf k = pf_resample_limit pf k)
       \<and> (pop_err pf \<noteq> 0
            \<and> (k \<le> 1 \<or> (INT_MIN \<le> fox_bound (pop_err pf) (pop_z pf) k
                          \<and> fox_bound (pop_err pf) (pop_z pf) k \<le> INT_MAX))
          \<longrightarrow> pf_resample_limit pf k = kld_limit_spec pf k)"
proof (intro conjI impI)
  show "pf_resample_limit_rounded rnd pf k = min_samples pf" if "k \<le> 1"
    using that by (simp add: pf_resample_limit_rounded_def)
  show "\<exists>v. pf_resample_limit_rounded rnd pf k = clamp_spec pf (int_conv \<lceil>v\<rceil>)
           \<and> fox_value (pop_err pf) (pop_z pf) k * ((1 - u) ^ 16 / (1 + u) ^ 7) \<le> v
           \<and> v \<le> fox_value (pop_err pf) (pop_z pf) k * ((1 + u) ^ 16 / (1 - u) ^ 7)"
    if "1 < k \<and> 0 < pop_err pf \<and> 0 \<le> pop_z pf"
    using rounded_limit_clamp_spec[OF assms, of k] that by simp
  show "pf_resample_limit_rounded rnd pf k = pf_resample_limit pf k" if "u = 0"
    using rnd_exact[OF assms(2) that] by (simp add: pf_resample_limit_rounded_exact)
  show "pf_resample_limit pf k = kld_limit_spec pf k"
    if h: "pop_err pf \<noteq> 0
            \<and> (k \<le> 1 \<or> (INT_MIN \<le> fox_bound (pop_err pf) (pop_z pf) k
                          \<and> fox_bound (pop_err pf) (pop_z pf) k \<le> INT_MAX))"
  proof (cases "k \<le> 1")
    case True
    then show ?thesis by (simp add: pf_resample_limit_def kld_limit_spec_unfold)
  next
    case False
    then show ?thesis using assms(1) h
      by (simp add: pf_resample_limit_fox kld_limit_spec_unfold clamp_samples_def int_conv_def
           Let_def max_def)
  qed
qed

theorem pf_resample_limit_clamped_formula_witness:
  "min_samples pf_alloc_double \<le> max_samples pf_alloc_double
   \<and> pop_err pf_alloc_double = round_double (1 / 100) \<and> pop_z pf_alloc_double = 3
   \<and> (\<exists>v. pf_resample_limit_rounded round_double pf_alloc_double 3
             = clamp_spec pf_alloc_double (int_conv \<lceil>v\<rceil>)
          \<and> fox_value (pop_err pf_alloc_double) 3 3
               * ((1 - 1 / 2 ^ 53) ^ 16 / (1 + 1 / 2 ^ 53) ^ 7) \<le> v
          \<and> v \<le> fox_value (pop_err pf_alloc_double) 3 3
               * ((1 + 1 / 2 ^ 53) ^ 16 / (1 - 1 / 2 ^ 53) ^ 7))
   \<and> pf_resample_limit_rounded round_double pf_alloc_double 3 = 674
   \<and> pf_resample_limit_rounded (\<lambda>x. x) pf_default 3 = 674
   \<and> pf_resample_limit pf_default 3 = 674 \<and> kld_limit_spec pf_default 3 = 674"
  using pf_resample_limit_clamped_formula[of pf_alloc_double round_double "1 / 2 ^ 53" 3,
          OF _ round_double_error]
        pf_resample_limit_clamped_formula[of pf_default "\<lambda>x. x" 0 3]
        alloc_double_limits
  by (simp add: pf_alloc_double_fields round_double_hundredth pf_default_def ex_pf_def
        kld_limit_spec_unfold fox_3 INT_MIN_def INT_MAX_def)

text \<open>C3, as stated, fails for a large quantile: with \<open>pop_z = 12\<close> the limit for
  three buckets is above the limit for nine. It also fails with the parameters of
  \<open>pf_alloc\<close> where the ceiling leaves the range of \<open>int\<close>: the limit is
  \<open>max_samples = 5000\<close> for a thousand buckets and \<open>min_samples = 100\<close> for fifty
  million.\<close>

theorem pf_resample_limit_not_monotone:
  "min_samples pf_z12 \<le> max_samples pf_z12 \<and> (2::int) \<le> 3 \<and> (3::int) \<le> 9
   \<and> pf_resample_limit pf_z12 3 = 11686 \<and> pf_resample_limit pf_z12 9 = 10503
   \<and> min_samples pf_default \<le> max_samples pf_default \<and> (2::int) \<le> 1000
   \<and> (1000::int) \<le> 50000000
   \<and> pf_resample_limit pf_default 1000 = 5000 \<and> pf_resample_limit pf_default 50000000 = 100"
proof -
  have a: "pf_resample_limit pf_z12 3 = 11686 \<and> pf_resample_limit pf_z12 9 = 10503"
    by (simp add: pf_resample_limit_fox pf_z12_def pf_default_def ex_pf_def
          fox_z12_3 fox_z12_9 clamp_samples_def int_conv_def INT_MIN_def INT_MAX_def)
  have b: "pf_resample_limit pf_default 1000 = 5000"
    using fox_1000
    by (simp add: pf_resample_limit_fox pf_default_def ex_pf_def clamp_samples_def
          int_conv_def INT_MIN_def)
  have c: "pf_resample_limit pf_default 50000000 = 100"
    using fox_50000000
    by (simp add: pf_resample_limit_fox pf_default_def ex_pf_def clamp_samples_def
          int_conv_def INT_MIN_def)
  from a b c show ?thesis by (simp add: pf_z12_def pf_default_def ex_pf_def)
qed

text \<open>C3 (amended). For every filter with \<open>min_samples \<le> max_samples\<close>, in a double
  arithmetic whose operations have a relative error of at most \<open>u \<le> 2^-53\<close>: the
  limit lies in \<open>[min_samples, max_samples]\<close> and equals \<open>min_samples\<close> for
  \<open>k \<le> 1\<close>; and if \<open>pop_err > 0\<close> and \<open>0 \<le> pop_z \<le> 4\<close>, the limit for \<open>k\<close> is at
  most the limit for every \<open>k' \<ge> k\<close> in the range of \<open>int\<close> for which the ceiling of
  the formula, its value enlarged by the rounding factor \<open>(1 + u)^16 / (1 - u)^7\<close>,
  fits in an \<open>int\<close>. In exact arithmetic (\<open>u = 0\<close>) the limit for \<open>k\<close> is at most the
  limit for every \<open>k' \<ge> k\<close> whose ceiling fits in an \<open>int\<close> if \<open>pop_err > 0\<close> and
  the value of the formula for two buckets is not above its value for three; this
  condition on the first step holds for every \<open>pop_z \<le> 6.65\<close>, the default
  \<open>pop_z = 3\<close> included.\<close>

theorem pf_resample_limit_monotone_bounded:
  fixes rnd :: "real \<Rightarrow> real"
  assumes "min_samples pf \<le> max_samples pf"
    and "\<And>x. \<bar>rnd x - x\<bar> \<le> u * \<bar>x\<bar>" and "u \<le> 1 / 2 ^ 53"
  shows "min_samples pf \<le> pf_resample_limit_rounded rnd pf k
       \<and> pf_resample_limit_rounded rnd pf k \<le> max_samples pf
       \<and> (k \<le> 1 \<longrightarrow> pf_resample_limit_rounded rnd pf k = min_samples pf)
       \<and> (0 < pop_err pf \<and> 0 \<le> pop_z pf \<and> pop_z pf \<le> 4 \<and> k \<le> k' \<and> k' \<le> INT_MAX
          \<and> \<lceil>fox_value (pop_err pf) (pop_z pf) k' * ((1 + u) ^ 16 / (1 - u) ^ 7)\<rceil> \<le> INT_MAX
            \<longrightarrow> pf_resample_limit_rounded rnd pf k \<le> pf_resample_limit_rounded rnd pf k')
       \<and> (u = 0 \<longrightarrow> pf_resample_limit_rounded rnd pf k = pf_resample_limit pf k)
       \<and> min_samples pf \<le> pf_resample_limit pf k
       \<and> pf_resample_limit pf k \<le> max_samples pf
       \<and> (k \<le> 1 \<longrightarrow> pf_resample_limit pf k = min_samples pf)
       \<and> (0 < pop_err pf \<and> kld_x (pop_z pf) 1 ^ 3 \<le> 2 * kld_x (pop_z pf) 2 ^ 3
          \<and> k \<le> k' \<and> fox_bound (pop_err pf) (pop_z pf) k' \<le> INT_MAX
            \<longrightarrow> pf_resample_limit pf k \<le> pf_resample_limit pf k')
       \<and> (pop_z pf \<le> 133 / 20 \<longrightarrow> kld_x (pop_z pf) 1 ^ 3 \<le> 2 * kld_x (pop_z pf) 2 ^ 3)"
proof -
  have a: "0 < pop_err pf \<and> 0 \<le> pop_z pf \<and> pop_z pf \<le> 4 \<and> k \<le> k' \<and> k' \<le> INT_MAX
          \<and> \<lceil>fox_value (pop_err pf) (pop_z pf) k' * ((1 + u) ^ 16 / (1 - u) ^ 7)\<rceil> \<le> INT_MAX
            \<longrightarrow> pf_resample_limit_rounded rnd pf k \<le> pf_resample_limit_rounded rnd pf k'"
    using pf_resample_limit_double_mono[OF assms, of k k'] by blast
  have c: "u = 0 \<longrightarrow> pf_resample_limit_rounded rnd pf k = pf_resample_limit pf k"
    using rnd_exact[OF assms(2)] by (auto simp: pf_resample_limit_rounded_exact)
  have d: "k \<le> 1 \<longrightarrow> pf_resample_limit_rounded rnd pf k = min_samples pf"
    by (simp add: pf_resample_limit_rounded_def)
  have e: "k \<le> 1 \<longrightarrow> pf_resample_limit pf k = min_samples pf"
    by (simp add: pf_resample_limit_def)
  have f: "0 < pop_err pf \<and> kld_x (pop_z pf) 1 ^ 3 \<le> 2 * kld_x (pop_z pf) 2 ^ 3
          \<and> k \<le> k' \<and> fox_bound (pop_err pf) (pop_z pf) k' \<le> INT_MAX
            \<longrightarrow> pf_resample_limit pf k \<le> pf_resample_limit pf k'"
    using pf_resample_limit_mono[OF assms(1), of k k'] by blast
  show ?thesis
    using pf_resample_limit_rounded_range[OF assms(1), of rnd k]
      pf_resample_limit_range[OF assms(1), of k] kld_first_step_holds[of "pop_z pf"] a c d e f
    by blast
qed

theorem pf_resample_limit_monotone_bounded_witness:
  "min_samples pf_alloc_double \<le> max_samples pf_alloc_double
   \<and> 0 < pop_err pf_alloc_double \<and> 0 \<le> pop_z pf_alloc_double \<and> pop_z pf_alloc_double \<le> 4
   \<and> (9::int) \<le> INT_MAX
   \<and> \<lceil>fox_value (pop_err pf_alloc_double) (pop_z pf_alloc_double) 9
         * ((1 + 1 / 2 ^ 53) ^ 16 / (1 - 1 / 2 ^ 53) ^ 7)\<rceil> \<le> INT_MAX
   \<and> pf_resample_limit_rounded round_double pf_alloc_double 3 = 674
   \<and> pf_resample_limit_rounded round_double pf_alloc_double 9 = 1277
   \<and> pf_resample_limit_rounded round_double pf_alloc_double 3
        \<le> pf_resample_limit_rounded round_double pf_alloc_double 9
   \<and> pf_resample_limit_rounded round_double pf_alloc_double 1 = 100
   \<and> min_samples pf_default \<le> max_samples pf_default \<and> 0 < pop_err pf_default
   \<and> pop_z pf_default \<le> 133 / 20
   \<and> kld_x (pop_z pf_default) 1 ^ 3 \<le> 2 * kld_x (pop_z pf_default) 2 ^ 3
   \<and> fox_bound (pop_err pf_default) (pop_z pf_default) 9 \<le> INT_MAX
   \<and> pf_resample_limit pf_default 3 = 674 \<and> pf_resample_limit pf_default 9 = 1277
   \<and> pf_resample_limit pf_default 3 \<le> pf_resample_limit pf_default 9
   \<and> pf_resample_limit pf_default 1 = 100"
proof -
  have "595508 * 576460752303423488 / (46656 * 5764607523034235)
                * ((1 + 1 / 2 ^ 53) ^ 16 / (1 - 1 / 2 ^ 53) ^ 7) \<le> (1277::real)"
    by (simp add: power_divide field_simps)
  then have "\<lceil>595508 * 576460752303423488 / (46656 * 5764607523034235)
                * ((1 + 1 / 2 ^ 53) ^ 16 / (1 - 1 / 2 ^ 53) ^ 7) :: real\<rceil> \<le> 1277"
    by (simp only: ceiling_le_iff of_int_numeral)
  then have fits: "\<lceil>fox_value (pop_err pf_alloc_double) (pop_z pf_alloc_double) 9
         * ((1 + 1 / 2 ^ 53) ^ 16 / (1 - 1 / 2 ^ 53) ^ 7)\<rceil> \<le> INT_MAX"
    unfolding pf_alloc_double_fields fox_value_double_9 INT_MAX_def by linarith
  have r: "pf_resample_limit_rounded round_double pf_alloc_double 1 = 100"
    using pf_resample_limit_monotone_bounded[of pf_alloc_double round_double "1 / 2 ^ 53" 1 1,
            OF _ round_double_error]
    by (simp add: pf_alloc_double_fields)
  have m: "pf_resample_limit_rounded round_double pf_alloc_double 3
        \<le> pf_resample_limit_rounded round_double pf_alloc_double 9"
    using pf_resample_limit_monotone_bounded[of pf_alloc_double round_double "1 / 2 ^ 53" 3 9,
            OF _ round_double_error] fits
    by (simp add: pf_alloc_double_fields INT_MAX_def)
  have x: "pf_resample_limit pf_default 3 = 674 \<and> pf_resample_limit pf_default 9 = 1277
   \<and> pf_resample_limit pf_default 3 \<le> pf_resample_limit pf_default 9
   \<and> pf_resample_limit pf_default 1 = 100
   \<and> kld_x (pop_z pf_default) 1 ^ 3 \<le> 2 * kld_x (pop_z pf_default) 2 ^ 3
   \<and> fox_bound (pop_err pf_default) (pop_z pf_default) 9 \<le> INT_MAX"
    using pf_resample_limit_monotone_bounded[of pf_default "\<lambda>x. x" 0 3 9]
          pf_resample_limit_monotone_bounded[of pf_default "\<lambda>x. x" 0 1 1]
    by (simp add: pf_default_def ex_pf_def pf_resample_limit_fox fox_3 fox_9 clamp_samples_def
          int_conv_def INT_MIN_def INT_MAX_def)
  show ?thesis
    using fits r m x alloc_double_limits
    by (simp add: pf_alloc_double_fields pf_default_def ex_pf_def INT_MAX_def)
qed

section \<open>Loops\<close>

declare resample_loop.simps [simp del]

lemma bind_Done [simp]: "bind (Done x) f = f x"
  by (simp add: bind_def)

lemma bind_eq_Done: "bind m f = Done y \<longleftrightarrow> (\<exists>x. m = Done x \<and> f x = Done y)"
  by (cases m) (simp_all add: bind_def)

lemma bind_for_each_Nil [simp]: "bind m (for_each [] body) = m"
  by (cases m) (simp_all add: bind_def)

lemma for_each_append:
  "for_each (xs @ ys) body s = bind (for_each xs body s) (for_each ys body)"
  by (induction xs arbitrary: s) (auto simp: bind_def split: outcome.splits)

lemma for_each_invariant:
  assumes "for_each xs body s = Done s'" and "P s"
    and "\<And>i t t'. i \<in> set xs \<Longrightarrow> P t \<Longrightarrow> body i t = Done t' \<Longrightarrow> P t'"
  shows "P s'"
  using assms
proof (induction xs arbitrary: s)
  case Nil
  then show ?case by simp
next
  case (Cons i xs)
  from Cons.prems(1) obtain t where t: "body i s = Done t" and r: "for_each xs body t = Done s'"
    by (auto simp: bind_eq_Done)
  have "P t" using Cons.prems(3)[of i s t] t Cons.prems(2) by simp
  show ?case
  proof (rule Cons.IH[OF r \<open>P t\<close>])
    fix j u u' assume "j \<in> set xs" "P u" "body j u = Done u'"
    then show "P u'" using Cons.prems(3)[of j u u'] by simp
  qed
qed

lemma for_each_upt_invariant:
  assumes "for_each [0..<n] body s = Done s'" and "P 0 s"
    and "\<And>i t t'. i < n \<Longrightarrow> P i t \<Longrightarrow> body i t = Done t' \<Longrightarrow> P (Suc i) t'"
  shows "P n s'"
  using assms
proof (induction n arbitrary: s')
  case 0
  then show ?case by simp
next
  case (Suc n)
  from Suc.prems(1) obtain t where t: "for_each [0..<n] body s = Done t" and b: "body n t = Done s'"
    by (auto simp: for_each_append bind_eq_Done)
  have "P n t" using Suc.IH[OF t Suc.prems(2)] Suc.prems(3) by simp
  then show ?case using Suc.prems(3)[of n t s'] b by simp
qed

lemma do_while_accepts:
  assumes "do_while draw correct r = Some y"
  shows "correct (fst y)"
  by (rule do_while.raw_induct[where P = "\<lambda>draw correct r y. correct (fst y)", OF _ assms])
     (auto split: prod.splits if_splits)

lemma run_do_while_accepts:
  "run_do_while draw correct r = Done (p, r') \<Longrightarrow> correct p"
  by (auto simp: run_do_while_def dest!: do_while_accepts split: option.splits)

lemma resample_loop_invariant:
  assumes "resample_loop E pf set_a rl n st = Done st'" and "I st"
    and "\<And>t t'. I t \<Longrightarrow> resample_draw E set_a rl t = Done t' \<Longrightarrow> I t'"
  shows "I st'"
  using assms
proof (induction E pf set_a rl n st rule: resample_loop.induct)
  case (1 E pf set_a rl n st)
  show ?case
  proof (cases "sample_count (fst st) < n")
    case False
    then show ?thesis using "1.prems" by (simp add: resample_loop.simps)
  next
    case True
    with "1.prems"(1) obtain t where t: "resample_draw E set_a rl st = Done t"
      by (auto simp: resample_loop.simps[of E pf set_a rl n st] split: outcome.splits)
    have It: "I t" using "1.prems"(3)[OF "1.prems"(2) t] .
    show ?thesis
    proof (cases "sample_count (fst t) > pf_resample_limit pf (leaf_count E (kdtree (fst t)))")
      case True
      then have "st' = t" using "1.prems"(1) \<open>sample_count (fst st) < n\<close> t
        by (simp add: resample_loop.simps[of E pf set_a rl n st])
      then show ?thesis using It by simp
    next
      case False
      then have "resample_loop E pf set_a rl n t = Done st'"
        using "1.prems"(1) \<open>sample_count (fst st) < n\<close> t
        by (simp add: resample_loop.simps[of E pf set_a rl n st])
      then show ?thesis
        using "1.IH"[OF \<open>sample_count (fst st) < n\<close> t False _ It] "1.prems"(3) by simp
    qed
  qed
qed

section \<open>Cluster queries\<close>

text \<open>C9. \<open>pf_get_cluster_stats\<close> tests the label against \<open>cluster_count\<close> only from
  above. On the example filter, whose current set has one cluster, label 0 is copied
  out, label 1 is rejected with 0, and label \<open>-1\<close> passes the test and reads the
  cluster table before its first entry: the function does not return 0 there.\<close>

theorem pf_get_cluster_stats_negative_label:
  "pf_get_cluster_stats ex_pf 0 = Done (1, Some (0, pf_vector_zero, pf_matrix_zero))
   \<and> pf_get_cluster_stats ex_pf 1 = Done (0, None)
   \<and> pf_get_cluster_stats ex_pf (- 1) = Fault Out_of_bounds"
  by (simp add: pf_get_cluster_stats_def ex_pf_def ex_set_def cluster_zero_def Let_def)

section \<open>Sensor update\<close>

lemma prefix_update_step:
  assumes "i < length xs"
  shows "(map f (take i xs) @ drop i xs)[i := f (xs ! i)]
         = map f (take (Suc i) xs) @ drop (Suc i) xs"
proof -
  have "drop i xs = xs ! i # drop (Suc i) xs"
    using assms by (simp add: Cons_nth_drop_Suc)
  then have "(map f (take i xs) @ drop i xs)[i := f (xs ! i)]
           = map f (take i xs) @ f (xs ! i) # drop (Suc i) xs"
    using assms by (simp add: list_update_append)
  also have "\<dots> = map f (take (Suc i) xs) @ drop (Suc i) xs"
    using assms by (simp add: take_Suc_conv_app_nth)
  finally show ?thesis .
qed

lemma prefix_nth:
  assumes "i < length xs"
  shows "(map f (take i xs) @ drop i xs) ! i = xs ! i"
  using assms by (simp add: nth_append)

text \<open>Both loops of the sensor update rewrite the weight of each of the first \<open>n\<close>
  samples by a function \<open>g\<close> of the sample and add up the squares of the new
  weights.\<close>

lemma sensor_loop:
  fixes body :: "nat \<Rightarrow> 'k pf_sample_set \<times> real \<Rightarrow> ('k pf_sample_set \<times> real) outcome"
  assumes n: "n \<le> length (samples s)"
    and body: "\<And>i t sq. i < length (samples t) \<Longrightarrow> sample_count t = sample_count s \<Longrightarrow>
        body i (t, sq) = Done (t\<lparr>samples := (samples t)[i := (samples t ! i)\<lparr>weight := g (samples t ! i)\<rparr>]\<rparr>,
                               sq + (g (samples t ! i))\<^sup>2)"
  shows "for_each [0..<n] body (s, 0)
         = Done (s\<lparr>samples := map (\<lambda>x. x\<lparr>weight := g x\<rparr>) (take n (samples s)) @ drop n (samples s)\<rparr>,
                 sum_list (map (\<lambda>x. (g x)\<^sup>2) (take n (samples s))))"
  using n
proof (induction n)
  case 0
  then show ?case by simp
next
  case (Suc n)
  define t where "t = s\<lparr>samples := map (\<lambda>x. x\<lparr>weight := g x\<rparr>) (take n (samples s)) @ drop n (samples s)\<rparr>"
  have n: "n < length (samples s)" using Suc.prems by simp
  have lt: "n < length (samples t)" using n by (simp add: t_def)
  have nth: "samples t ! n = samples s ! n"
    using n by (simp add: t_def prefix_nth)
  have "for_each [0..<Suc n] body (s, 0)
        = body n (t, sum_list (map (\<lambda>x. (g x)\<^sup>2) (take n (samples s))))"
    using Suc.IH n by (simp add: for_each_append t_def)
  also have "\<dots> = Done (t\<lparr>samples := (samples t)[n := (samples t ! n)\<lparr>weight := g (samples t ! n)\<rparr>]\<rparr>,
                      sum_list (map (\<lambda>x. (g x)\<^sup>2) (take n (samples s))) + (g (samples t ! n))\<^sup>2)"
    by (rule body[OF lt]) (simp add: t_def)
  also have "\<dots> = Done (s\<lparr>samples := map (\<lambda>x. x\<lparr>weight := g x\<rparr>) (take (Suc n) (samples s)) @ drop (Suc n) (samples s)\<rparr>,
                 sum_list (map (\<lambda>x. (g x)\<^sup>2) (take (Suc n) (samples s))))"
  proof -
    have up: "(samples t)[n := (samples s ! n)\<lparr>weight := g (samples s ! n)\<rparr>]
            = map (\<lambda>x. x\<lparr>weight := g x\<rparr>) (take (Suc n) (samples s)) @ drop (Suc n) (samples s)"
      using prefix_update_step[OF n, of "\<lambda>x. x\<lparr>weight := g x\<rparr>"] by (simp add: t_def)
    have sq: "sum_list (map (\<lambda>x. (g x)\<^sup>2) (take n (samples s))) + (g (samples s ! n))\<^sup>2
            = sum_list (map (\<lambda>x. (g x)\<^sup>2) (take (Suc n) (samples s)))"
      using n by (simp add: take_Suc_conv_app_nth)
    show ?thesis unfolding nth up sq by (simp add: t_def)
  qed
  finally show ?case .
qed

lemma pf_update_sensor_positive:
  assumes "sensor_fn (cur pf) = (T, set1)" and "0 < T"
    and "nat (sample_count set1) \<le> length (samples set1)"
  shows "pf_update_sensor pf sensor_fn
         = Done (pf\<lparr>sets := (sets pf)(current_set pf :=
                    set1\<lparr>samples := map (\<lambda>x. x\<lparr>weight := weight x / T\<rparr>) (live_samples set1)
                                      @ drop (nat (sample_count set1)) (samples set1)\<rparr>)\<rparr>,
                 sum_list (map (\<lambda>x. (weight x / T)\<^sup>2) (live_samples set1)))"
proof -
  have "for_each [0..<nat (sample_count set1)] (sensor_normalize T) (set1, 0)
        = Done (set1\<lparr>samples := map (\<lambda>x. x\<lparr>weight := weight x / T\<rparr>) (take (nat (sample_count set1)) (samples set1))
                                   @ drop (nat (sample_count set1)) (samples set1)\<rparr>,
                sum_list (map (\<lambda>x. (weight x / T)\<^sup>2) (take (nat (sample_count set1)) (samples set1))))"
    by (rule sensor_loop[OF assms(3)]) (simp add: sensor_normalize_def Let_def)
  then show ?thesis using assms(1,2)
    by (simp add: pf_update_sensor_def cur_def live_samples_def)
qed

lemma pf_update_sensor_rounded_exact:
  "pf_update_sensor_rounded (\<lambda>x. x) pf sensor_fn = pf_update_sensor pf sensor_fn"
proof -
  have a: "sensor_normalize_rounded (\<lambda>x. x) = sensor_normalize"
    by (intro ext) (simp add: sensor_normalize_rounded_def sensor_normalize_def)
  have b: "sensor_reset_rounded (\<lambda>x. x) = sensor_reset"
    by (intro ext) (simp add: sensor_reset_rounded_def sensor_reset_def)
  show ?thesis unfolding pf_update_sensor_rounded_def pf_update_sensor_def a b ..
qed

lemma sensor_loop_rounded:
  fixes body :: "nat \<Rightarrow> 'k pf_sample_set \<times> real \<Rightarrow> ('k pf_sample_set \<times> real) outcome"
  assumes n: "n \<le> length (samples s)"
    and body: "\<And>i t sq. i < length (samples t) \<Longrightarrow> sample_count t = sample_count s \<Longrightarrow>
        body i (t, sq) = Done (t\<lparr>samples := (samples t)[i := (samples t ! i)\<lparr>weight := g (samples t ! i)\<rparr>]\<rparr>,
                               rnd (sq + rnd ((g (samples t ! i))\<^sup>2)))"
  shows "for_each [0..<n] body (s, 0)
         = Done (s\<lparr>samples := map (\<lambda>x. x\<lparr>weight := g x\<rparr>) (take n (samples s)) @ drop n (samples s)\<rparr>,
                 foldl (\<lambda>sq x. rnd (sq + rnd ((g x)\<^sup>2))) 0 (take n (samples s)))"
  using n
proof (induction n)
  case 0
  then show ?case by simp
next
  case (Suc n)
  define t where "t = s\<lparr>samples := map (\<lambda>x. x\<lparr>weight := g x\<rparr>) (take n (samples s)) @ drop n (samples s)\<rparr>"
  define acc where "acc = foldl (\<lambda>sq x. rnd (sq + rnd ((g x)\<^sup>2))) 0 (take n (samples s))"
  have n: "n < length (samples s)" using Suc.prems by simp
  have lt: "n < length (samples t)" using n by (simp add: t_def)
  have nth: "samples t ! n = samples s ! n"
    using n by (simp add: t_def prefix_nth)
  have "for_each [0..<Suc n] body (s, 0) = body n (t, acc)"
    using Suc.IH n by (simp add: for_each_append t_def acc_def)
  also have "\<dots> = Done (t\<lparr>samples := (samples t)[n := (samples t ! n)\<lparr>weight := g (samples t ! n)\<rparr>]\<rparr>,
                      rnd (acc + rnd ((g (samples t ! n))\<^sup>2)))"
    by (rule body[OF lt]) (simp add: t_def)
  also have "\<dots> = Done (s\<lparr>samples := map (\<lambda>x. x\<lparr>weight := g x\<rparr>) (take (Suc n) (samples s)) @ drop (Suc n) (samples s)\<rparr>,
                 foldl (\<lambda>sq x. rnd (sq + rnd ((g x)\<^sup>2))) 0 (take (Suc n) (samples s)))"
  proof -
    have up: "(samples t)[n := (samples s ! n)\<lparr>weight := g (samples s ! n)\<rparr>]
            = map (\<lambda>x. x\<lparr>weight := g x\<rparr>) (take (Suc n) (samples s)) @ drop (Suc n) (samples s)"
      using prefix_update_step[OF n, of "\<lambda>x. x\<lparr>weight := g x\<rparr>"] by (simp add: t_def)
    have sq: "rnd (acc + rnd ((g (samples s ! n))\<^sup>2))
            = foldl (\<lambda>sq x. rnd (sq + rnd ((g x)\<^sup>2))) 0 (take (Suc n) (samples s))"
      using n by (simp add: take_Suc_conv_app_nth acc_def)
    show ?thesis unfolding nth up sq by (simp add: t_def)
  qed
  finally show ?case .
qed

text \<open>The error of a sum of \<open>k\<close> equal terms \<open>q \<ge> 0\<close> accumulated with a rounding of
  relative error at most \<open>u\<close>.\<close>

lemma rounded_sum_bounds:
  fixes rnd :: "real \<Rightarrow> real"
  assumes rnd: "\<And>x. \<bar>rnd x - x\<bar> \<le> u * \<bar>x\<bar>" and u: "0 \<le> u" "u \<le> 1" and q: "0 \<le> q"
  shows "real (length xs) * q * (1 - u) ^ length xs \<le> foldl (\<lambda>sq x. rnd (sq + q)) 0 xs
       \<and> foldl (\<lambda>sq x. rnd (sq + q)) 0 xs \<le> real (length xs) * q * (1 + u) ^ length xs"
proof (induction xs rule: rev_induct)
  case Nil
  then show ?case by simp
next
  case (snoc x xs)
  define k where "k = length xs"
  define s where "s = foldl (\<lambda>sq x. rnd (sq + q)) 0 xs"
  have lo: "real k * q * (1 - u) ^ k \<le> s" and hi: "s \<le> real k * q * (1 + u) ^ k"
    using snoc by (simp_all add: k_def s_def)
  have s0: "0 \<le> s"
  proof -
    have "0 \<le> real k * q * (1 - u) ^ k" using q u by simp
    with lo show ?thesis by simp
  qed
  have sq0: "0 \<le> s + q" using s0 q by simp
  have r: "\<bar>rnd (s + q) - (s + q)\<bar> \<le> u * (s + q)" using rnd[of "s + q"] sq0 by simp
  have p1: "1 \<le> (1 + u) ^ k" using u by (simp add: one_le_power)
  have p2: "(1 - u) ^ k \<le> 1" using u by (simp add: power_le_one)
  have "rnd (s + q) \<le> (1 + u) * (s + q)" using r by (simp add: algebra_simps abs_le_iff)
  also have "\<dots> \<le> (1 + u) * (real k * q * (1 + u) ^ k + q * (1 + u) ^ k)"
  proof (rule mult_left_mono)
    have "q * 1 \<le> q * (1 + u) ^ k" using p1 q by (rule mult_left_mono)
    then show "s + q \<le> real k * q * (1 + u) ^ k + q * (1 + u) ^ k" using hi by simp
    show "0 \<le> 1 + u" using u by simp
  qed
  also have "\<dots> = real (Suc k) * q * (1 + u) ^ Suc k" by (simp add: algebra_simps)
  finally have up: "rnd (s + q) \<le> real (Suc k) * q * (1 + u) ^ Suc k" .
  have "real (Suc k) * q * (1 - u) ^ Suc k = (1 - u) * (real k * q * (1 - u) ^ k + q * (1 - u) ^ k)"
    by (simp add: algebra_simps)
  also have "\<dots> \<le> (1 - u) * (s + q)"
  proof (rule mult_left_mono)
    have "q * (1 - u) ^ k \<le> q * 1" using p2 q by (rule mult_left_mono)
    then show "real k * q * (1 - u) ^ k + q * (1 - u) ^ k \<le> s + q" using lo by simp
    show "0 \<le> 1 - u" using u by simp
  qed
  also have "\<dots> \<le> rnd (s + q)" using r by (simp add: algebra_simps abs_le_iff)
  finally have low: "real (Suc k) * q * (1 - u) ^ Suc k \<le> rnd (s + q)" .
  show ?case using up low by (simp add: k_def s_def)
qed

lemma rounded_square_bounds:
  fixes rnd :: "real \<Rightarrow> real"
  assumes rnd: "\<And>x. \<bar>rnd x - x\<bar> \<le> u * \<bar>x\<bar>" and u: "0 \<le> u" "u \<le> 1" and a: "0 \<le> a"
  shows "(1 - u) ^ 3 * a\<^sup>2 \<le> rnd ((rnd a)\<^sup>2) \<and> rnd ((rnd a)\<^sup>2) \<le> (1 + u) ^ 3 * a\<^sup>2"
proof -
  have ra: "(1 - u) * a \<le> rnd a" "rnd a \<le> (1 + u) * a"
    using rnd[of a] a by (simp_all add: algebra_simps abs_le_iff)
  have ra0: "0 \<le> rnd a"
  proof -
    have "0 \<le> (1 - u) * a" using u a by simp
    with ra(1) show ?thesis by simp
  qed
  have "0 \<le> (1 - u) * a" using u a by simp
  then have s1: "((1 - u) * a)\<^sup>2 \<le> (rnd a)\<^sup>2" using ra(1) by (rule power_mono[rotated])
  have s2: "(rnd a)\<^sup>2 \<le> ((1 + u) * a)\<^sup>2" using ra(2) ra0 by (rule power_mono)
  have rq: "(1 - u) * (rnd a)\<^sup>2 \<le> rnd ((rnd a)\<^sup>2)" "rnd ((rnd a)\<^sup>2) \<le> (1 + u) * (rnd a)\<^sup>2"
    using rnd[of "(rnd a)\<^sup>2"] by (simp_all add: algebra_simps abs_le_iff)
  have "(1 - u) ^ 3 * a\<^sup>2 = (1 - u) * ((1 - u) * a)\<^sup>2"
    by (simp add: power2_eq_square power3_eq_cube algebra_simps)
  also have "\<dots> \<le> (1 - u) * (rnd a)\<^sup>2" using s1 u by (intro mult_left_mono) auto
  also have "\<dots> \<le> rnd ((rnd a)\<^sup>2)" by (rule rq(1))
  finally have lo: "(1 - u) ^ 3 * a\<^sup>2 \<le> rnd ((rnd a)\<^sup>2)" .
  have "rnd ((rnd a)\<^sup>2) \<le> (1 + u) * (rnd a)\<^sup>2" by (rule rq(2))
  also have "\<dots> \<le> (1 + u) * ((1 + u) * a)\<^sup>2" using s2 u by (intro mult_left_mono) auto
  also have "\<dots> = (1 + u) ^ 3 * a\<^sup>2"
    by (simp add: power2_eq_square power3_eq_cube algebra_simps)
  finally show ?thesis using lo by simp
qed

lemma pf_update_sensor_rounded_zero:
  assumes "sensor_fn (cur pf) = (T, set1)" and "\<not> 0 < T"
    and "nat (sample_count set1) \<le> length (samples set1)"
  shows "pf_update_sensor_rounded rnd pf sensor_fn
         = Done (pf\<lparr>sets := (sets pf)(current_set pf :=
                    set1\<lparr>samples := map (\<lambda>x. x\<lparr>weight := rnd (1 / real_of_int (sample_count set1))\<rparr>) (live_samples set1)
                                      @ drop (nat (sample_count set1)) (samples set1)\<rparr>)\<rparr>,
                 foldl (\<lambda>sq x. rnd (sq + rnd ((rnd (1 / real_of_int (sample_count set1)))\<^sup>2))) 0
                   (live_samples set1))"
proof -
  have "for_each [0..<nat (sample_count set1)] (sensor_reset_rounded rnd) (set1, 0)
        = Done (set1\<lparr>samples := map (\<lambda>x. x\<lparr>weight := rnd (1 / real_of_int (sample_count set1))\<rparr>) (take (nat (sample_count set1)) (samples set1))
                                   @ drop (nat (sample_count set1)) (samples set1)\<rparr>,
                foldl (\<lambda>sq x. rnd (sq + rnd ((rnd (1 / real_of_int (sample_count set1)))\<^sup>2))) 0
                  (take (nat (sample_count set1)) (samples set1)))"
    by (rule sensor_loop_rounded[OF assms(3)]) (simp add: sensor_reset_rounded_def Let_def)
  then show ?thesis using assms(1,2)
    by (simp add: pf_update_sensor_rounded_def cur_def live_samples_def)
qed

text \<open>C4, as stated, fails in the double arithmetic of the code: for a set of ten
  samples and total weight 0 every weight becomes the double \<open>1.0 / 10\<close> and the value
  returned, ten additions of the rounded square, is \<open>0.10000000000000003\<close>, which is
  neither that double nor the number \<open>1/10\<close>.\<close>

theorem sensor_zero_total_rounds:
  "(case pf_update_sensor_rounded round_double ten_pf (\<lambda>s. (0, s)) of
      Done (pf', sq) \<Rightarrow>
        sample_count (cur pf') = 10
        \<and> weight (samples (cur pf') ! 0) = round_double (1 / 10)
        \<and> round_double (1 / 10) = 3602879701896397 / 36028797018963968
        \<and> sq = 1801439850948199 / 18014398509481984
        \<and> sq \<noteq> round_double (1 / 10) \<and> sq \<noteq> 1 / 10
    | _ \<Rightarrow> False)"
  by (simp add: pf_update_sensor_rounded_def ten_pf_def ten_set_def ex_pf_def ex_set_def
        sensor_reset_rounded_def upt_conv_Cons cur_def rd_defs power2_eq_square)

text \<open>C4 (amended). If the sensor model returns the total weight 0 (and the \<open>n\<close>
  samples of the set lie inside its buffer), \<open>pf_update_sensor\<close> returns, every
  sample of the current set has its old pose and the weight \<open>1.0 / n\<close> as the
  division computes it, and the returned value is the sum of the squared weights as the
  loop accumulates it. This sum equals \<open>1/n\<close> up to rounding: if every operation
  returns its exact result with a relative error of at most \<open>u \<le> 1\<close>, the returned
  value lies between \<open>(1 - u)^(n+3) / n\<close> and \<open>(1 + u)^(n+3) / n\<close>, and in exact
  arithmetic (\<open>u = 0\<close>) it is \<open>1/n\<close>.\<close>

theorem pf_update_sensor_zero_total:
  fixes rnd :: "real \<Rightarrow> real"
  assumes "sensor_fn (cur pf) = (T, set1)" and "T = 0"
    and "nat (sample_count set1) \<le> length (samples set1)"
    and rnd: "\<And>x. \<bar>rnd x - x\<bar> \<le> u * \<bar>x\<bar>" and u1: "u \<le> 1"
  shows "\<exists>pf' sq. pf_update_sensor_rounded rnd pf sensor_fn = Done (pf', sq)
       \<and> sample_count (cur pf') = sample_count set1
       \<and> live_samples (cur pf')
           = map (\<lambda>x. x\<lparr>weight := rnd (1 / real_of_int (sample_count set1))\<rparr>) (live_samples set1)
       \<and> sq = foldl (\<lambda>sq x. rnd (sq + rnd ((weight x)\<^sup>2))) 0 (live_samples (cur pf'))
       \<and> (0 < sample_count set1 \<longrightarrow>
            (1 - u) ^ (nat (sample_count set1) + 3) / real_of_int (sample_count set1) \<le> sq
            \<and> sq \<le> (1 + u) ^ (nat (sample_count set1) + 3) / real_of_int (sample_count set1))
       \<and> (u = 0 \<longrightarrow> pf_update_sensor pf sensor_fn = Done (pf', sq)
            \<and> (0 < sample_count set1 \<longrightarrow> sq = 1 / real_of_int (sample_count set1)))"
proof -
  define n where "n = nat (sample_count set1)"
  define w where "w = rnd (1 / real_of_int (sample_count set1))"
  define q where "q = rnd (w\<^sup>2)"
  define pf' where "pf' = pf\<lparr>sets := (sets pf)(current_set pf :=
      set1\<lparr>samples := map (\<lambda>x. x\<lparr>weight := w\<rparr>) (live_samples set1)
                        @ drop (nat (sample_count set1)) (samples set1)\<rparr>)\<rparr>"
  define sq where "sq = foldl (\<lambda>sq x. rnd (sq + q)) 0 (live_samples set1)"
  have u0: "0 \<le> u" using rnd[of 1] by simp
  have "\<not> 0 < T" using assms(2) by simp
  from pf_update_sensor_rounded_zero[where sensor_fn = sensor_fn and pf = pf and rnd = rnd,
         OF assms(1) this assms(3)]
  have r: "pf_update_sensor_rounded rnd pf sensor_fn = Done (pf', sq)"
    unfolding pf'_def sq_def w_def q_def .
  have len: "length (live_samples set1) = n"
    using assms(3) by (simp add: live_samples_def n_def)
  have l: "live_samples (cur pf') = map (\<lambda>x. x\<lparr>weight := w\<rparr>) (live_samples set1)"
    using len by (simp add: live_samples_def cur_def pf'_def n_def)
  have s: "sq = foldl (\<lambda>sq x. rnd (sq + rnd ((weight x)\<^sup>2))) 0 (live_samples (cur pf'))"
    unfolding l sq_def q_def by (simp add: foldl_map)
  have c: "sample_count (cur pf') = sample_count set1"
    by (simp add: cur_def pf'_def)
  have b: "(1 - u) ^ (n + 3) / real_of_int (sample_count set1) \<le> sq
         \<and> sq \<le> (1 + u) ^ (n + 3) / real_of_int (sample_count set1)"
    if pos: "0 < sample_count set1"
  proof -
    define a where "a = 1 / real_of_int (sample_count set1)"
    have a: "0 \<le> a" "real n * a = 1" using pos by (simp_all add: a_def n_def)
    from rounded_square_bounds[of rnd u a, OF rnd u0 u1 a(1)]
    have qb: "(1 - u) ^ 3 * a\<^sup>2 \<le> q" "q \<le> (1 + u) ^ 3 * a\<^sup>2"
      by (simp_all add: q_def w_def a_def)
    have q0: "0 \<le> q"
    proof -
      have "0 \<le> (1 - u) ^ 3 * a\<^sup>2" using u1 by simp
      with qb(1) show ?thesis by simp
    qed
    from rounded_sum_bounds[of rnd u q "live_samples set1", OF rnd u0 u1 q0]
    have sb: "real n * q * (1 - u) ^ n \<le> sq" "sq \<le> real n * q * (1 + u) ^ n"
      by (simp_all add: sq_def len)
    have na: "real n * a\<^sup>2 = a" using a(2) by (simp add: power2_eq_square algebra_simps)
    have "(1 - u) ^ (n + 3) * a = real n * ((1 - u) ^ 3 * a\<^sup>2) * (1 - u) ^ n"
      using na by (simp add: power_add algebra_simps)
    also have "\<dots> \<le> real n * q * (1 - u) ^ n"
      using qb(1) u1 by (intro mult_right_mono mult_left_mono) auto
    also have "\<dots> \<le> sq" by (rule sb(1))
    finally have lo: "(1 - u) ^ (n + 3) * a \<le> sq" .
    have "sq \<le> real n * q * (1 + u) ^ n" by (rule sb(2))
    also have "\<dots> \<le> real n * ((1 + u) ^ 3 * a\<^sup>2) * (1 + u) ^ n"
      using qb(2) u0 by (intro mult_right_mono mult_left_mono) auto
    also have "\<dots> = (1 + u) ^ (n + 3) * a"
      using na by (simp add: power_add algebra_simps)
    finally have hi: "sq \<le> (1 + u) ^ (n + 3) * a" .
    from lo hi show ?thesis by (simp add: a_def)
  qed
  have e: "pf_update_sensor pf sensor_fn = Done (pf', sq)
         \<and> (0 < sample_count set1 \<longrightarrow> sq = 1 / real_of_int (sample_count set1))"
    if z: "u = 0"
  proof -
    have "rnd x = x" for x using rnd[of x] z by simp
    then have "rnd = (\<lambda>x. x)" by (intro ext)
    with r have "pf_update_sensor pf sensor_fn = Done (pf', sq)"
      by (simp add: pf_update_sensor_rounded_exact)
    moreover have "sq = 1 / real_of_int (sample_count set1)" if "0 < sample_count set1"
      using b[OF that] z by simp
    ultimately show ?thesis by simp
  qed
  from r c l s b e show ?thesis unfolding w_def n_def by blast
qed

theorem pf_update_sensor_zero_total_witness:
  "(\<forall>x::real. \<bar>x - x\<bar> \<le> 0 * \<bar>x\<bar>) \<and> (0::real) \<le> 1
   \<and> (\<exists>pf' sq. pf_update_sensor_rounded (\<lambda>x. x) ex_pf ex_sensor_zero = Done (pf', sq)
         \<and> pf_update_sensor ex_pf ex_sensor_zero = Done (pf', sq)
         \<and> map weight (live_samples (cur pf')) = [1 / 2, 1 / 2] \<and> sq = 1 / 2)
   \<and> (\<forall>x. \<bar>round_double x - x\<bar> \<le> (1 / 2 ^ 53) * \<bar>x\<bar>) \<and> (1 / 2 ^ 53 :: real) \<le> 1
   \<and> (\<exists>pf' sq. pf_update_sensor_rounded round_double ten_pf (\<lambda>s. (0, s)) = Done (pf', sq)
         \<and> (1 - 1 / 2 ^ 53) ^ 13 / 10 \<le> sq \<and> sq \<le> (1 + 1 / 2 ^ 53) ^ 13 / 10)"
proof -
  have t: "(\<lambda>s. (0, s)) (cur ten_pf) = (0 :: real, cur ten_pf)" by simp
  have tn: "sample_count (cur ten_pf) = 10"
    "nat (sample_count (cur ten_pf)) \<le> length (samples (cur ten_pf))"
    by (simp_all add: ten_pf_def ten_set_def cur_def)
  have u: "(1 / 2 ^ 53 :: real) \<le> 1" by simp
  from pf_update_sensor_zero_total[where sensor_fn = "\<lambda>s. (0, s)" and pf = ten_pf
         and rnd = round_double and u = "1 / 2 ^ 53", OF t _ tn(2) round_double_error u]
  obtain pf10 sq10 where
    r10: "pf_update_sensor_rounded round_double ten_pf (\<lambda>s. (0, s)) = Done (pf10, sq10)"
    and b10: "(1 - 1 / 2 ^ 53) ^ 13 / 10 \<le> sq10 \<and> sq10 \<le> (1 + 1 / 2 ^ 53) ^ 13 / 10"
    using tn(1) by auto
  have ten: "\<exists>pf' sq. pf_update_sensor_rounded round_double ten_pf (\<lambda>s. (0, s)) = Done (pf', sq)
         \<and> (1 - 1 / 2 ^ 53) ^ 13 / 10 \<le> sq \<and> sq \<le> (1 + 1 / 2 ^ 53) ^ 13 / 10"
    using r10 b10 by blast
  have a: "ex_sensor_zero (cur ex_pf) = (0, snd (ex_sensor_zero (cur ex_pf)))"
    by (simp add: ex_sensor_zero_def)
  have l: "live_samples (snd (ex_sensor_zero (cur ex_pf)))
           = [\<lparr>pose = ex_pose, weight = 0\<rparr>, \<lparr>pose = ex_pose, weight = 0\<rparr>]"
    by (simp add: ex_sensor_zero_def cur_def ex_pf_def ex_set_def live_samples_def eval_nat_numeral)
  have n: "sample_count (snd (ex_sensor_zero (cur ex_pf))) = 2"
    by (simp add: ex_sensor_zero_def cur_def ex_pf_def ex_set_def)
  have b: "nat (sample_count (snd (ex_sensor_zero (cur ex_pf))))
           \<le> length (samples (snd (ex_sensor_zero (cur ex_pf))))"
    by (simp add: ex_sensor_zero_def cur_def ex_pf_def ex_set_def)
  have e: "\<bar>(\<lambda>x. x) x - x\<bar> \<le> 0 * \<bar>x\<bar>" for x :: real by simp
  from pf_update_sensor_zero_total[where sensor_fn = ex_sensor_zero and pf = ex_pf
         and rnd = "\<lambda>x. x" and u = 0, OF a _ b e]
  obtain pf' sq where
    r: "pf_update_sensor_rounded (\<lambda>x. x) ex_pf ex_sensor_zero = Done (pf', sq)"
    and w: "live_samples (cur pf')
            = map (\<lambda>x. x\<lparr>weight := 1 / real_of_int (sample_count (snd (ex_sensor_zero (cur ex_pf))))\<rparr>)
                (live_samples (snd (ex_sensor_zero (cur ex_pf))))"
    and s: "pf_update_sensor ex_pf ex_sensor_zero = Done (pf', sq)
            \<and> (0 < sample_count (snd (ex_sensor_zero (cur ex_pf)))
                 \<longrightarrow> sq = 1 / real_of_int (sample_count (snd (ex_sensor_zero (cur ex_pf)))))"
    by auto
  have "map weight (live_samples (cur pf')) = [1 / 2, 1 / 2]" by (simp add: w l n)
  moreover have "sq = 1 / 2" using s by (simp add: n)
  ultimately have two: "\<exists>pf' sq. pf_update_sensor_rounded (\<lambda>x. x) ex_pf ex_sensor_zero = Done (pf', sq)
         \<and> pf_update_sensor ex_pf ex_sensor_zero = Done (pf', sq)
         \<and> map weight (live_samples (cur pf')) = [1 / 2, 1 / 2] \<and> sq = 1 / 2"
    using r s by auto
  from two ten round_double_error show ?thesis by simp
qed

text \<open>C5. If the sensor model returns a total weight \<open>T > 0\<close> (and the samples of the
  set lie inside its buffer), \<open>pf_update_sensor\<close> returns, every weight of the current
  set is the weight the sensor model wrote divided by \<open>T\<close>, and the returned value is
  the sum of the squares of these normalised weights.\<close>

theorem pf_update_sensor_normalizes:
  assumes "sensor_fn (cur pf) = (T, set1)" and "0 < T"
    and "nat (sample_count set1) \<le> length (samples set1)"
  shows "\<exists>pf' sq. pf_update_sensor pf sensor_fn = Done (pf', sq)
       \<and> sample_count (cur pf') = sample_count set1
       \<and> live_samples (cur pf') = map (\<lambda>x. x\<lparr>weight := weight x / T\<rparr>) (live_samples set1)
       \<and> sq = sum_list (map (\<lambda>x. (weight x)\<^sup>2) (live_samples (cur pf')))"
proof -
  define pf' where "pf' = pf\<lparr>sets := (sets pf)(current_set pf :=
      set1\<lparr>samples := map (\<lambda>x. x\<lparr>weight := weight x / T\<rparr>) (live_samples set1)
                        @ drop (nat (sample_count set1)) (samples set1)\<rparr>)\<rparr>"
  define sq where "sq = sum_list (map (\<lambda>x. (weight x / T)\<^sup>2) (live_samples set1))"
  have r: "pf_update_sensor pf sensor_fn = Done (pf', sq)"
    unfolding pf'_def sq_def by (rule pf_update_sensor_positive[where sensor_fn = sensor_fn and pf = pf, OF assms])
  have len: "length (live_samples set1) = nat (sample_count set1)"
    using assms(3) by (simp add: live_samples_def)
  have l: "live_samples (cur pf') = map (\<lambda>x. x\<lparr>weight := weight x / T\<rparr>) (live_samples set1)"
    using len by (simp add: live_samples_def cur_def pf'_def)
  have "sq = sum_list (map (\<lambda>x. (weight x)\<^sup>2) (live_samples (cur pf')))"
    unfolding l sq_def by (simp add: comp_def)
  moreover have "sample_count (cur pf') = sample_count set1"
    by (simp add: cur_def pf'_def)
  ultimately show ?thesis using r l by blast
qed

theorem pf_update_sensor_normalizes_witness:
  "\<exists>pf' sq. pf_update_sensor ex_pf ex_sensor = Done (pf', sq)
      \<and> map weight (live_samples (cur pf')) = [3 / 4, 1 / 4] \<and> sq = 5 / 8"
proof -
  have a: "ex_sensor (cur ex_pf) = (4, snd (ex_sensor (cur ex_pf)))"
    by (simp add: ex_sensor_def)
  have l: "live_samples (snd (ex_sensor (cur ex_pf)))
           = [\<lparr>pose = ex_pose, weight = 3\<rparr>, \<lparr>pose = ex_pose, weight = 1\<rparr>]"
    by (simp add: ex_sensor_def cur_def ex_pf_def ex_set_def live_samples_def eval_nat_numeral)
  have b: "nat (sample_count (snd (ex_sensor (cur ex_pf))))
           \<le> length (samples (snd (ex_sensor (cur ex_pf))))"
    by (simp add: ex_sensor_def cur_def ex_pf_def ex_set_def)
  from pf_update_sensor_normalizes[where sensor_fn = ex_sensor and pf = ex_pf, OF a _ b]
  obtain pf' sq where
    r: "pf_update_sensor ex_pf ex_sensor = Done (pf', sq)"
    and w: "live_samples (cur pf')
            = map (\<lambda>x. x\<lparr>weight := weight x / 4\<rparr>) (live_samples (snd (ex_sensor (cur ex_pf))))"
    and s: "sq = sum_list (map (\<lambda>x. (weight x)\<^sup>2) (live_samples (cur pf')))"
    by auto
  have "map weight (live_samples (cur pf')) = [3 / 4, 1 / 4]" by (simp add: w l)
  moreover have "sq = 5 / 8" by (simp add: s w l power2_eq_square)
  ultimately show ?thesis using r by auto
qed

section \<open>Frames of the helper loops\<close>

lemma cluster_reset_frame:
  "cluster_reset i t = Done t' \<Longrightarrow> samples t' = samples t \<and> sample_count t' = sample_count t"
  by (auto simp: cluster_reset_def split: if_splits)

lemma cluster_accum_frame:
  "cluster_accum E i t = Done t' \<Longrightarrow> samples t' = samples t \<and> sample_count t' = sample_count t"
  by (auto simp: cluster_accum_def Let_def split: if_splits)

lemma cluster_normalize_frame:
  "cluster_normalize i t = Done t' \<Longrightarrow> samples t' = samples t \<and> sample_count t' = sample_count t"
  by (auto simp: cluster_normalize_def split: if_splits)

lemma pf_cluster_stats_frame:
  assumes "pf_cluster_stats E s = Done s'"
  shows "samples s' = samples s \<and> sample_count s' = sample_count s"
proof -
  define P where "P = (\<lambda>t :: 'a pf_sample_set. samples t = samples s \<and> sample_count t = sample_count s)"
  from assms obtain s1 s2 where
    a: "for_each [0..<nat (cluster_max_count s)] cluster_reset
          (s\<lparr>kdtree := pf_kdtree_cluster E (kdtree s), cluster_count := 0\<rparr>) = Done s1"
    and b: "for_each [0..<nat (sample_count s1)] (cluster_accum E) s1 = Done s2"
    and c: "for_each [0..<nat (cluster_count s2)] cluster_normalize s2 = Done s'"
    by (auto simp: pf_cluster_stats_def Let_def bind_eq_Done)
  have "P s1"
    by (rule for_each_invariant[OF a]) (auto simp: P_def dest: cluster_reset_frame)
  then have "P s2"
    by (rule for_each_invariant[OF b]) (auto simp: P_def dest: cluster_accum_frame)
  then have "P s'"
    by (rule for_each_invariant[OF c]) (auto simp: P_def dest: cluster_normalize_frame)
  then show ?thesis by (simp add: P_def)
qed

lemma finish_resample_cur:
  assumes "finish_resample E pf sb d = Done pf'"
  shows "\<exists>s1. normalize_weights sb d = Done s1 \<and> pf_cluster_stats E s1 = Done (cur pf')
          \<and> current_set pf' = (current_set pf + 1) smod 2
          \<and> (\<forall>j. j \<noteq> (current_set pf + 1) smod 2 \<longrightarrow> sets pf' j = sets pf j)"
  using assms by (auto simp: finish_resample_def bind_eq_Done cur_def)

lemma finish_resample_shape:
  assumes "finish_resample E pf sb d = Done pf'"
  shows "pf' = pf\<lparr>sets := (sets pf)((current_set pf + 1) smod 2 := cur pf'),
                  current_set := (current_set pf + 1) smod 2\<rparr>"
  using assms by (auto simp: finish_resample_def bind_eq_Done cur_def)

lemma add_sample_nth:
  assumes "add_sample E s p w = Done s'"
  shows "0 \<le> sample_count s \<and> nat (sample_count s) < length (samples s)
       \<and> sample_count s' = sample_count s + 1 \<and> length (samples s') = length (samples s)
       \<and> samples s' ! nat (sample_count s) = \<lparr>pose = p, weight = w\<rparr>
       \<and> (\<forall>j. j \<noteq> nat (sample_count s) \<longrightarrow> samples s' ! j = samples s ! j)"
  using assms
  by (auto simp: add_sample_def push_sample_def slot_ok_def bind_eq_Done split: if_splits)

section \<open>Runs on the concrete inputs\<close>

lemma smod_flip [simp]: "(1::int) smod 2 = 1" "(2::int) smod 2 = 0"
  by (simp_all add: signed_modulo_int_def)

lemmas ex_defs = ex_extern_def ex_map_def ex_pose_def ex_set_def ex_pf_def ex_hyp_def

lemmas step_defs = resample_from_def resample_draw_def
  add_sample_def push_sample_def slot_ok_def randlist_of_def finish_resample_def
  normalize_weights_def scale_weight_def pf_cluster_stats_def cluster_reset_def
  cluster_accum_def cluster_normalize_def pf_resample_limit_def cur_def
  resample_loop.simps Let_def upt_conv_Cons

lemmas map_defs = free_cell_def valid_cell_def MAP_GXWX_def MAP_GYWY_def MAP_VALID_def
  MAP_INDEX_def draw_map_def draw_map_zero_def draw_point_def draw_hyp_def draw_hyp_zero_def
  run_do_while_def pf_vector_zero_def do_while.simps

lemma ex_resample:
  "\<exists>pf'. run_call ex_extern ex_pf (Call_resample 3) 0 = Done pf' \<and> sample_count (cur pf') = 3
      \<and> sets pf' 0 = sets ex_pf 0"
  by (simp add: pf_update_resample_def ex_defs step_defs)

lemma ex_init_map:
  "\<exists>pf'. run_call ex_extern ex_pf (Call_init_map ex_map) 0 = Done pf' \<and> sample_count (cur pf') = 3"
  by (simp add: pf_init_map_def init_with_def init_sample_def ex_defs step_defs map_defs)

lemma ex_resample_map:
  "\<exists>pf'. run_call ex_extern ex_pf (Call_resample_map ex_map) 0 = Done pf'
      \<and> sample_count (cur pf') = 3
      \<and> \<not> free_cell ex_map (pose (samples (cur pf') ! 0))
      \<and> free_cell ex_map (pose (samples (cur pf') ! 2))"
  by (simp add: pf_update_resample_map_def map_inject_one_def ex_defs step_defs map_defs
        eval_nat_numeral)

lemma ex_hyps_2:
  "\<exists>pf'. run_call ex_extern ex_pf (Call_resample_hyps_2 ex_map 1 [ex_hyp] 0) 0 = Done pf'
      \<and> sample_count (cur pf') = 0 \<and> weight_sum (cur pf') = 0"
  by (simp add: pf_update_resample_hyps_2_def hyps_2_attempt_def uniform_weight_def
        ex_defs step_defs map_defs weight_sum_def live_samples_def)

lemma ex_hyps_3:
  "\<exists>pf'. run_call ex_extern ex_pf (Call_resample_hyps_3 ex_map 1 [ex_hyp]) 0 = Done pf'
      \<and> sample_count (sets ex_pf (current_set ex_pf)) = 2
      \<and> sample_count (sets pf' (current_set ex_pf)) = 1"
  by (simp add: pf_update_resample_hyps_3_def hyps_3_cloud_def hyps_3_attempt_def
        hyps_3_transfer_def run_hyps_3_while_def hyps_3_while.simps
        ex_defs step_defs map_defs)

text \<open>Around a hypothesis whose draws all land in an occupied cell the inner loop of
  \<open>pf_update_resample_hyps_3\<close> is entered with an empty cloud and ends at once, by the
  limit \<open>INT_MIN\<close> of \<open>pf_resample_limit_2\<close>.\<close>

lemma ex_hyps_3_far:
  "\<exists>pf'. run_call ex_extern ex_pf (Call_resample_hyps_3 ex_map 1 [ex_far_hyp]) 0 = Done pf'
      \<and> sample_count (cur pf') = 2
      \<and> sample_count (sets pf' (current_set ex_pf)) = 0"
  by (simp add: pf_update_resample_hyps_3_def hyps_3_cloud_def hyps_3_attempt_def
        hyps_3_transfer_def run_hyps_3_while_def hyps_3_while.simps pf_resample_limit_2_small
        INT_MIN_def ex_far_hyp_def ex_defs step_defs map_defs)

lemma ex_hyps_inject:
  "\<exists>st'. hyps_inject ex_extern ex_map 1 [ex_hyp] 1 (ex_set, 2, 0) = Done st'"
  by (simp add: hyps_inject_def hyps_attempt_def ex_defs step_defs map_defs)

section \<open>Weights after initialization and resampling\<close>

lemma live_samples_uniform:
  assumes "uniform_weights s"
  shows "map weight (live_samples s)
         = replicate (nat (sample_count s)) (1 / real_of_int (sample_count s))"
  using assms
  by (intro nth_equalityI) (auto simp: uniform_weights_def live_samples_def)

lemma uniform_weights_sum:
  assumes "uniform_weights s"
  shows "weights_nonneg s \<and> (0 < sample_count s \<longrightarrow> weight_sum s = 1)"
proof -
  have "weights_nonneg s"
    using assms
    by (auto simp: weights_nonneg_def list_all_length live_samples_def uniform_weights_def)
  moreover have "weight_sum s = 1" if "0 < sample_count s"
    using that by (simp add: weight_sum_def live_samples_uniform[OF assms] sum_list_replicate)
  ultimately show ?thesis by simp
qed

lemma push_sample_unit:
  assumes "push_sample s p 1 = Done s'" and "unit_weights s"
  shows "unit_weights s' \<and> sample_count s' = sample_count s + 1 \<and> length (samples s') = length (samples s)"
  using assms
  by (auto simp: push_sample_def slot_ok_def unit_weights_def nth_list_update nat_add_distrib
           split: if_splits)

lemma add_sample_unit:
  assumes "add_sample E s p 1 = Done s'" and "unit_weights s"
  shows "unit_weights s' \<and> sample_count s' = sample_count s + 1 \<and> length (samples s') = length (samples s)"
proof -
  from assms(1) obtain t where t: "push_sample s p 1 = Done t"
    and s': "s' = t\<lparr>kdtree := pf_kdtree_insert E (kdtree t) p 1\<rparr>"
    by (auto simp: add_sample_def bind_eq_Done)
  from push_sample_unit[OF t assms(2)] show ?thesis
    by (auto simp: s' unit_weights_def)
qed

lemma resample_draw_unit:
  assumes "resample_draw E set_a rl st = Done st'" and "unit_state st"
  shows "unit_state st'"
  using assms
  by (auto simp: resample_draw_def unit_state_def Let_def bind_eq_Done
           split: prod.splits if_splits dest!: add_sample_unit)

lemma resample_from_unit:
  assumes "resample_from E pf set_a n r = Done st'"
  shows "unit_state st'"
proof -
  have "unit_state (sets pf ((current_set pf + 1) smod 2)
          \<lparr>kdtree := pf_kdtree_clear E (kdtree (sets pf ((current_set pf + 1) smod 2))),
            sample_count := 0\<rparr>, 0::real, r)"
    by (simp add: unit_state_def unit_weights_def)
  with assms show ?thesis
    unfolding resample_from_def Let_def
    by (rule resample_loop_invariant) (rule resample_draw_unit)
qed

lemma scale_weight_step:
  assumes "scale_weight d i t = Done t'"
  shows "i < length (samples t) \<and> sample_count t' = sample_count t
       \<and> length (samples t') = length (samples t)
       \<and> weight (samples t' ! i) = weight (samples t ! i) / d
       \<and> (\<forall>j. j \<noteq> i \<longrightarrow> samples t' ! j = samples t ! j)"
  using assms by (auto simp: scale_weight_def split: if_splits)

lemma normalize_weights_unit:
  assumes "normalize_weights s d = Done s'" and "unit_weights s"
  shows "sample_count s' = sample_count s \<and> nat (sample_count s) \<le> length (samples s')
       \<and> (\<forall>i < nat (sample_count s). weight (samples s' ! i) = 1 / d)"
proof -
  define n where "n = nat (sample_count s)"
  define P where "P = (\<lambda>k (t :: 'a pf_sample_set).
     sample_count t = sample_count s \<and> length (samples t) = length (samples s)
     \<and> (\<forall>i < k. weight (samples t ! i) = 1 / d)
     \<and> (\<forall>i. k \<le> i \<and> i < n \<longrightarrow> weight (samples t ! i) = 1))"
  have loop: "for_each [0..<n] (scale_weight d) s = Done s'"
    using assms(1) by (simp add: normalize_weights_def n_def)
  have "P n s'"
  proof (rule for_each_upt_invariant[OF loop])
    show "P 0 s" using assms(2) by (simp add: P_def unit_weights_def n_def)
  next
    fix i t t' assume i: "i < n" and Pt: "P i t" and b: "scale_weight d i t = Done t'"
    from scale_weight_step[OF b] Pt i show "P (Suc i) t'"
      by (auto simp: P_def less_Suc_eq)
  qed
  then show ?thesis using assms(2) by (simp add: P_def n_def unit_weights_def)
qed

lemma finish_resample_uniform:
  assumes "finish_resample E pf sb d = Done pf'" and "unit_weights sb"
    and "d = real_of_int (sample_count sb)"
  shows "uniform_weights (cur pf')"
proof -
  from finish_resample_cur[OF assms(1)] obtain s1 where
    n: "normalize_weights sb d = Done s1" and c: "pf_cluster_stats E s1 = Done (cur pf')"
    by blast
  from normalize_weights_unit[OF n assms(2)] pf_cluster_stats_frame[OF c] assms(3)
  show ?thesis by (simp add: uniform_weights_def)
qed

lemma init_with_uniform:
  assumes "init_with E pf draw r = Done pf'"
  shows "uniform_weights (cur pf')"
proof -
  define s1 where "s1 = (sets pf (current_set pf))
     \<lparr>kdtree := pf_kdtree_clear E (kdtree (sets pf (current_set pf))), sample_count := max_samples pf\<rparr>"
  define n where "n = nat (max_samples pf)"
  define P where "P = (\<lambda>k (st :: 'a pf_sample_set \<times> 'b).
     sample_count (fst st) = max_samples pf \<and> k \<le> length (samples (fst st))
     \<and> (\<forall>i < k. weight (samples (fst st) ! i) = 1 / real_of_int (max_samples pf)))"
  from assms obtain s2 r2 where
    loop: "for_each [0..<n] (init_sample E pf draw) (s1, r) = Done (s2, r2)"
    and c: "pf_cluster_stats E s2 = Done (cur pf')"
    by (auto simp: init_with_def Let_def bind_eq_Done s1_def n_def cur_def)
  have "P n (s2, r2)"
  proof (rule for_each_upt_invariant[OF loop])
    show "P 0 (s1, r)" by (simp add: P_def s1_def)
  next
    fix i t t' assume "i < n" and Pt: "P i t" and b: "init_sample E pf draw i t = Done t'"
    then show "P (Suc i) t'"
      by (auto simp: P_def init_sample_def bind_eq_Done Let_def nth_list_update less_Suc_eq
               split: prod.splits if_splits)
  qed
  with pf_cluster_stats_frame[OF c] show ?thesis
    by (simp add: P_def uniform_weights_def n_def)
qed

lemma pf_update_resample_uniform:
  assumes "pf_update_resample E pf nMaxParticles r = Done pf'"
  shows "uniform_weights (cur pf')"
proof -
  from assms obtain sb tw r' where
    a: "resample_from E pf (sets pf (current_set pf)) nMaxParticles r = Done (sb, tw, r')"
    and f: "finish_resample E pf sb tw = Done pf'"
    by (auto simp: pf_update_resample_def bind_eq_Done)
  from resample_from_unit[OF a] finish_resample_uniform[OF f] show ?thesis
    by (simp add: unit_state_def)
qed

lemma map_add_one_unit:
  assumes "map_add_one E mp st = Done st'" and "unit_state st"
  shows "unit_state st'"
  using assms
  by (auto simp: map_add_one_def unit_state_def bind_eq_Done
           split: prod.splits if_splits dest!: add_sample_unit)

lemma map_inject_one_unit:
  assumes "map_inject_one E mp st = Done st'" and "unit_state st"
  shows "unit_state st'"
  using assms
  by (auto simp: map_inject_one_def unit_state_def bind_eq_Done
           split: prod.splits if_splits dest!: add_sample_unit)

lemma map_inject_unit:
  assumes "map_inject E pf mp n st = Done st'" and "unit_state st"
  shows "unit_state st'"
  using assms
proof (induction n arbitrary: st)
  case 0
  then show ?case by simp
next
  case (Suc n)
  then show ?case
    by (auto simp: bind_eq_Done split: if_splits dest: map_inject_one_unit)
qed

lemma hyps_attempt_unit:
  assumes "hyps_attempt E mp hyps j i st = Done st'" and "unit_state st"
  shows "unit_state st'"
  using assms
  by (auto simp: hyps_attempt_def unit_state_def bind_eq_Done
           split: prod.splits if_splits dest!: add_sample_unit)

lemma pf_update_resample_addParticle_uniform:
  assumes "pf_update_resample_addParticle E pf nPartToAdd mp r = Done pf'"
  shows "uniform_weights (cur pf')"
proof -
  from assms obtain st sb tw r' where
    a: "resample_from E pf (sets pf (current_set pf)) (max_samples pf - nPartToAdd) r = Done st"
    and b: "for_each [0..<nat nPartToAdd] (\<lambda>i. map_add_one E mp) st = Done (sb, tw, r')"
    and f: "finish_resample E pf sb tw = Done pf'"
    by (auto simp: pf_update_resample_addParticle_def bind_eq_Done)
  have "unit_state (sb, tw, r')"
    by (rule for_each_invariant[where P = unit_state, OF b resample_from_unit[OF a]])
       (rule map_add_one_unit)
  with finish_resample_uniform[OF f] show ?thesis by (simp add: unit_state_def)
qed

lemma pf_update_resample_map_uniform:
  assumes "pf_update_resample_map E pf mp r = Done pf'"
  shows "uniform_weights (cur pf')"
proof -
  from assms obtain st sb tw r' where
    a: "resample_from E pf (sets pf (current_set pf)) (max_samples pf - overHead_samples pf) r = Done st"
    and b: "(if sample_count (fst st) < min_samples pf + 10
             then map_inject E pf mp 100 st else Done st) = Done (sb, tw, r')"
    and f: "finish_resample E pf sb tw = Done pf'"
    by (auto simp: pf_update_resample_map_def bind_eq_Done)
  have "unit_state (sb, tw, r')"
    using b resample_from_unit[OF a] by (auto split: if_splits dest: map_inject_unit)
  with finish_resample_uniform[OF f] show ?thesis by (simp add: unit_state_def)
qed

lemma pf_update_resample_hyps_uniform:
  assumes "pf_update_resample_hyps E pf mp nHyp hyps nParticle r = Done pf'"
  shows "uniform_weights (cur pf')"
proof -
  from assms obtain st nNew sb tw r' where
    a: "resample_from E pf (sets pf (current_set pf)) (max_samples pf - overHead_samples pf) r = Done st"
    and b: "for_each [0..<nat nHyp]
              (\<lambda>j. for_each [0..<nat nNew] (hyps_attempt E mp hyps j)) st = Done (sb, tw, r')"
    and f: "finish_resample E pf sb tw = Done pf'"
    by (auto simp: pf_update_resample_hyps_def hyps_inject_def bind_eq_Done)
  have "unit_state (sb, tw, r')"
  proof (rule for_each_invariant[where P = unit_state, OF b resample_from_unit[OF a]])
    fix j t t' assume u: "unit_state t"
      and l: "for_each [0..<nat nNew] (hyps_attempt E mp hyps j) t = Done t'"
    show "unit_state t'"
      by (rule for_each_invariant[where P = unit_state, OF l u]) (rule hyps_attempt_unit)
  qed
  with finish_resample_uniform[OF f] show ?thesis by (simp add: unit_state_def)
qed

lemma pf_update_resample_hyps_2_uniform:
  assumes "pf_update_resample_hyps_2 E pf mp nHyp hyps over_head r = Done pf'"
  shows "uniform_weights (cur pf')"
proof -
  from assms obtain pf1 sa r1 sb tw r2 where
    a: "resample_from E pf1 sa (max_samples pf - 1000) r1 = Done (sb, tw, r2)"
    and f: "finish_resample E pf1 sb (real_of_int (sample_count sb)) = Done pf'"
    by (auto simp: pf_update_resample_hyps_2_def Let_def bind_eq_Done split: if_splits)
  from resample_from_unit[OF a] finish_resample_uniform[OF f] show ?thesis
    by (simp add: unit_state_def)
qed

lemma hyps_3_transfer_unit:
  assumes "hyps_3_transfer E sa i st = Done st'" and "unit_weights (fst st)"
  shows "unit_weights (fst st')"
  using assms
  by (auto simp: hyps_3_transfer_def bind_eq_Done split: prod.splits if_splits
           dest!: add_sample_unit)

lemma hyps_3_cloud_unit:
  assumes "hyps_3_cloud E pf mp hyps nMinPart nNewSample j st = Done st'"
    and "unit_weights (fst (snd st))"
  shows "unit_weights (fst (snd st'))"
proof -
  obtain sa sb r where st: "st = (sa, sb, r)" by (cases st) auto
  from assms(1) obtain sa2 r2 sb3 r3 where
    t: "for_each [0..<nat (sample_count sa2)] (hyps_3_transfer E sa2) (sb, r2) = Done (sb3, r3)"
    and st': "st' = (sa2, sb3, r3)"
    by (auto simp: hyps_3_cloud_def st Let_def bind_eq_Done)
  have "unit_weights (fst (sb3, r3))"
    by (rule for_each_invariant[OF t, where P = "\<lambda>u. unit_weights (fst u)"])
       (use assms(2) st in \<open>auto dest: hyps_3_transfer_unit\<close>)
  then show ?thesis by (simp add: st')
qed

lemma pf_update_resample_hyps_3_uniform:
  assumes "pf_update_resample_hyps_3 E pf mp nHyp hyps r = Done pf'"
  shows "uniform_weights (cur pf')"
proof -
  from assms obtain nReq sb tw r1 nMin nNew sa' sb' r2 pf1 where
    a: "resample_from E pf (sets pf (current_set pf)) nReq r = Done (sb, tw, r1)"
    and b: "for_each [0..<nat nHyp] (hyps_3_cloud E pf mp hyps nMin nNew)
              (sets pf (current_set pf), sb, r1) = Done (sa', sb', r2)"
    and f: "finish_resample E pf1 sb' (real_of_int (sample_count sb')) = Done pf'"
    by (auto simp: pf_update_resample_hyps_3_def Let_def bind_eq_Done split: if_splits)
  have "unit_weights (fst (snd (sa', sb', r2)))"
    by (rule for_each_invariant[OF b, where P = "\<lambda>u. unit_weights (fst (snd u))"])
       (use resample_from_unit[OF a] in \<open>auto simp: unit_state_def dest: hyps_3_cloud_unit\<close>)
  with finish_resample_uniform[OF f] show ?thesis by simp
qed

lemma run_call_uniform:
  assumes "run_call E pf c r = Done pf'"
  shows "uniform_weights (cur pf')"
  using assms
  by (cases c)
     (auto simp: pf_init_def pf_init_map_def pf_init_model_def pf_init_to_point_def
           dest: init_with_uniform pf_update_resample_uniform
                 pf_update_resample_addParticle_uniform pf_update_resample_map_uniform
                 pf_update_resample_hyps_uniform pf_update_resample_hyps_2_uniform
                 pf_update_resample_hyps_3_uniform)

text \<open>C1, as stated, fails where the operation leaves an empty set:
  \<open>pf_update_resample_hyps_2\<close> resamples up to \<open>max_samples - 1000\<close>, so on the example
  filter (\<open>max_samples = 3\<close>) it returns with a current set of no samples, whose
  weights sum to 0.\<close>

theorem hyps_2_leaves_empty_set:
  "\<exists>pf'. run_call ex_extern ex_pf (Call_resample_hyps_2 ex_map 1 [ex_hyp] 0) 0 = Done pf'
      \<and> sample_count (cur pf') = 0 \<and> weight_sum (cur pf') = 0"
  by (rule ex_hyps_2)

text \<open>C1 (amended). After any initialization or resampling operation returns, for
  every map, callback and random stream, every weight of the resulting current set is
  nonnegative, and the weights sum to 1 provided the set holds at least one sample.\<close>

theorem weights_normalized_after_call:
  assumes "run_call E pf c r = Done pf'"
  shows "weights_nonneg (cur pf') \<and> (0 < sample_count (cur pf') \<longrightarrow> weight_sum (cur pf') = 1)"
  using run_call_uniform[OF assms] by (rule uniform_weights_sum)

theorem weights_normalized_after_call_witness:
  "(\<exists>pf'. run_call ex_extern ex_pf (Call_resample 3) 0 = Done pf'
       \<and> sample_count (cur pf') = 3 \<and> weights_nonneg (cur pf') \<and> weight_sum (cur pf') = 1)
   \<and> (\<exists>pf'. run_call ex_extern ex_pf (Call_init_map ex_map) 0 = Done pf'
       \<and> sample_count (cur pf') = 3 \<and> weights_nonneg (cur pf') \<and> weight_sum (cur pf') = 1)
   \<and> (\<exists>pf'. run_call ex_extern ex_pf (Call_resample_hyps_3 ex_map 1 [ex_far_hyp]) 0 = Done pf'
       \<and> sample_count (cur pf') = 2 \<and> weights_nonneg (cur pf') \<and> weight_sum (cur pf') = 1)"
proof -
  from ex_resample obtain p where
    p: "run_call ex_extern ex_pf (Call_resample 3) 0 = Done p" "sample_count (cur p) = 3"
    by blast
  from ex_init_map obtain q where
    q: "run_call ex_extern ex_pf (Call_init_map ex_map) 0 = Done q" "sample_count (cur q) = 3"
    by blast
  from ex_hyps_3_far obtain u where
    u: "run_call ex_extern ex_pf (Call_resample_hyps_3 ex_map 1 [ex_far_hyp]) 0 = Done u"
       "sample_count (cur u) = 2"
    by blast
  from weights_normalized_after_call[OF p(1)] p(2)
  have "weights_nonneg (cur p) \<and> weight_sum (cur p) = 1" by simp
  moreover from weights_normalized_after_call[OF q(1)] q(2)
  have "weights_nonneg (cur q) \<and> weight_sum (cur q) = 1" by simp
  moreover from weights_normalized_after_call[OF u(1)] u(2)
  have "weights_nonneg (cur u) \<and> weight_sum (cur u) = 1" by simp
  ultimately show ?thesis using p q u by blast
qed

section \<open>Free cells\<close>

lemma placed_copied_then_free:
  assumes "placed mp src n s"
  shows "copied_then_free mp src s n"
  using assms
  by (auto simp: placed_def copied_then_free_def live_samples_def list_all_length)

lemma add_sample_copy:
  assumes "add_sample E s p w = Done s'" and "placed mp src (nat (sample_count s)) s"
    and "p \<in> set (map pose (samples src))"
  shows "placed mp src (nat (sample_count s')) s'"
proof -
  define k where "k = nat (sample_count s)"
  from add_sample_nth[OF assms(1)] have
    lt: "k < length (samples s)" and k': "nat (sample_count s') = Suc k"
    and len: "length (samples s') = length (samples s)"
    and new: "pose (samples s' ! k) = p"
    and old: "\<And>j. j \<noteq> k \<Longrightarrow> samples s' ! j = samples s ! j"
    by (simp_all add: k_def nat_add_distrib)
  have cp: "\<And>i. i < k \<Longrightarrow> pose (samples s ! i) \<in> set (map pose (samples src))"
    using assms(2) by (simp add: placed_def k_def)
  have "pose (samples s' ! i) \<in> set (map pose (samples src))" if "i < Suc k" for i
  proof (cases "i = k")
    case True
    then show ?thesis using new assms(3) by simp
  next
    case False
    with that have "i < k" by simp
    then show ?thesis using cp[of i] old[OF False] by simp
  qed
  then show ?thesis
    unfolding placed_def k' using lt len by auto
qed

lemma add_sample_free:
  assumes "add_sample E s p w = Done s'" and "placed mp src n s" and "free_cell mp p"
  shows "placed mp src n s'"
proof -
  define k where "k = nat (sample_count s)"
  from add_sample_nth[OF assms(1)] have
    lt: "k < length (samples s)" and k': "nat (sample_count s') = Suc k"
    and len: "length (samples s') = length (samples s)"
    and new: "pose (samples s' ! k) = p"
    and old: "\<And>j. j \<noteq> k \<Longrightarrow> samples s' ! j = samples s ! j"
    by (simp_all add: k_def nat_add_distrib)
  from assms(2) have nk: "n \<le> k"
    and cp: "\<And>i. i < n \<Longrightarrow> pose (samples s ! i) \<in> set (map pose (samples src))"
    and fr: "\<And>i. n \<le> i \<Longrightarrow> i < k \<Longrightarrow> free_cell mp (pose (samples s ! i))"
    by (simp_all add: placed_def k_def)
  have a: "pose (samples s' ! i) \<in> set (map pose (samples src))" if "i < n" for i
    using cp[OF that] old[of i] that nk by simp
  have b: "free_cell mp (pose (samples s' ! i))" if "n \<le> i" "i < Suc k" for i
  proof (cases "i = k")
    case True
    then show ?thesis using new assms(3) by simp
  next
    case False
    with that have "i < k" by simp
    then show ?thesis using fr[OF that(1)] old[OF False] by simp
  qed
  show ?thesis
    unfolding placed_def k' using lt len nk a b by auto
qed

lemma resample_draw_copies:
  assumes "resample_draw E src rl st = Done st'" and "copies_state mp src st"
  shows "copies_state mp src st'"
proof -
  obtain sb tw r where st: "st = (sb, tw, r)" by (cases st) auto
  obtain i r' where d: "pf_pdf_discrete_sample E rl r = (i, r')"
    by (cases "pf_pdf_discrete_sample E rl r") auto
  from assms(1) obtain sb' where i: "0 \<le> i" "i < int (length (samples src))"
    and a: "add_sample E sb (pose (samples src ! nat i)) 1 = Done sb'"
    and st': "st' = (sb', tw + 1, r')"
    by (auto simp: resample_draw_def st d Let_def bind_eq_Done split: if_splits)
  have "pose (samples src ! nat i) \<in> set (map pose (samples src))"
    using i by simp
  from add_sample_copy[OF a _ this, of mp] assms(2) show ?thesis
    by (simp add: copies_state_def st st')
qed

lemma resample_from_copies:
  assumes "resample_from E pf src n r = Done st'"
  shows "copies_state mp src st'"
proof -
  have "copies_state mp src (sets pf ((current_set pf + 1) smod 2)
          \<lparr>kdtree := pf_kdtree_clear E (kdtree (sets pf ((current_set pf + 1) smod 2))),
            sample_count := 0\<rparr>, 0::real, r)"
    by (simp add: copies_state_def placed_def)
  with assms show ?thesis
    unfolding resample_from_def Let_def
    by (rule resample_loop_invariant) (rule resample_draw_copies)
qed

lemma normalize_weights_poses:
  assumes "normalize_weights s d = Done s'"
  shows "sample_count s' = sample_count s \<and> length (samples s') = length (samples s)
       \<and> (\<forall>i. pose (samples s' ! i) = pose (samples s ! i))"
proof -
  define P where "P = (\<lambda>t :: 'a pf_sample_set.
     sample_count t = sample_count s \<and> length (samples t) = length (samples s)
     \<and> (\<forall>i. pose (samples t ! i) = pose (samples s ! i)))"
  have "P s'"
  proof (rule for_each_invariant[where P = P, OF assms[unfolded normalize_weights_def]])
    show "P s" by (simp add: P_def)
  next
    fix i t t' assume "P t" and "scale_weight d i t = Done t'"
    then show "P t'"
      by (auto simp: P_def scale_weight_def nth_list_update split: if_splits)
  qed
  then show ?thesis by (simp add: P_def)
qed

lemma finish_resample_placed:
  assumes "finish_resample E pf sb d = Done pf'" and "placed mp src n sb"
  shows "placed mp src n (cur pf')"
proof -
  from finish_resample_cur[OF assms(1)] obtain s1 where
    a: "normalize_weights sb d = Done s1" and c: "pf_cluster_stats E s1 = Done (cur pf')"
    by blast
  from normalize_weights_poses[OF a] pf_cluster_stats_frame[OF c] assms(2)
  show ?thesis by (simp add: placed_def)
qed

lemma map_add_one_placed:
  assumes "map_add_one E mp st = Done st'" and "placed_state mp src n st"
  shows "placed_state mp src n st'"
  using assms
  by (auto simp: map_add_one_def placed_state_def bind_eq_Done
           split: prod.splits if_splits
           dest!: run_do_while_accepts intro: add_sample_free)

lemma map_inject_one_placed:
  assumes "map_inject_one E mp st = Done st'" and "placed_state mp src n st"
  shows "placed_state mp src n st'"
  using assms
  by (auto simp: map_inject_one_def placed_state_def bind_eq_Done
           split: prod.splits if_splits
           dest!: run_do_while_accepts intro: add_sample_free)

lemma map_inject_placed:
  assumes "map_inject E pf mp k st = Done st'" and "placed_state mp src n st"
  shows "placed_state mp src n st'"
  using assms
proof (induction k arbitrary: st)
  case 0
  then show ?case by simp
next
  case (Suc k)
  then show ?case
    by (auto simp: bind_eq_Done split: if_splits dest: map_inject_one_placed)
qed

lemma hyps_attempt_placed:
  assumes "hyps_attempt E mp hyps j i st = Done st'" and "placed_state mp src n st"
  shows "placed_state mp src n st'"
  using assms
  by (auto simp: hyps_attempt_def placed_state_def bind_eq_Done
           split: prod.splits if_splits intro: add_sample_free)

lemma pf_update_resample_addParticle_placed:
  assumes "pf_update_resample_addParticle E pf nPartToAdd mp r = Done pf'"
  shows "\<exists>n. placed mp (cur pf) n (cur pf')"
proof -
  from assms obtain st sb tw r' where
    a: "resample_from E pf (cur pf) (max_samples pf - nPartToAdd) r = Done st"
    and b: "for_each [0..<nat nPartToAdd] (\<lambda>i. map_add_one E mp) st = Done (sb, tw, r')"
    and f: "finish_resample E pf sb tw = Done pf'"
    by (auto simp: pf_update_resample_addParticle_def bind_eq_Done cur_def)
  define n where "n = nat (sample_count (fst st))"
  have "placed_state mp (cur pf) n st"
    using resample_from_copies[OF a, of mp] by (simp add: copies_state_def placed_state_def n_def)
  then have "placed_state mp (cur pf) n (sb, tw, r')"
    by (rule for_each_invariant[where P = "placed_state mp (cur pf) n", OF b])
       (rule map_add_one_placed)
  with finish_resample_placed[OF f] show ?thesis by (auto simp: placed_state_def)
qed

lemma pf_update_resample_map_placed:
  assumes "pf_update_resample_map E pf mp r = Done pf'"
  shows "\<exists>n. placed mp (cur pf) n (cur pf')"
proof -
  from assms obtain st sb tw r' where
    a: "resample_from E pf (cur pf) (max_samples pf - overHead_samples pf) r = Done st"
    and b: "(if sample_count (fst st) < min_samples pf + 10
             then map_inject E pf mp 100 st else Done st) = Done (sb, tw, r')"
    and f: "finish_resample E pf sb tw = Done pf'"
    by (auto simp: pf_update_resample_map_def bind_eq_Done cur_def)
  define n where "n = nat (sample_count (fst st))"
  have "placed_state mp (cur pf) n st"
    using resample_from_copies[OF a, of mp] by (simp add: copies_state_def placed_state_def n_def)
  then have "placed_state mp (cur pf) n (sb, tw, r')"
    using b by (auto split: if_splits dest: map_inject_placed)
  with finish_resample_placed[OF f] show ?thesis by (auto simp: placed_state_def)
qed

lemma pf_update_resample_hyps_placed:
  assumes "pf_update_resample_hyps E pf mp nHyp hyps nParticle r = Done pf'"
  shows "\<exists>n. placed mp (cur pf) n (cur pf')"
proof -
  from assms obtain st nNew sb tw r' where
    a: "resample_from E pf (cur pf) (max_samples pf - overHead_samples pf) r = Done st"
    and b: "for_each [0..<nat nHyp]
              (\<lambda>j. for_each [0..<nat nNew] (hyps_attempt E mp hyps j)) st = Done (sb, tw, r')"
    and f: "finish_resample E pf sb tw = Done pf'"
    by (auto simp: pf_update_resample_hyps_def hyps_inject_def bind_eq_Done cur_def)
  define n where "n = nat (sample_count (fst st))"
  have s: "placed_state mp (cur pf) n st"
    using resample_from_copies[OF a, of mp] by (simp add: copies_state_def placed_state_def n_def)
  have "placed_state mp (cur pf) n (sb, tw, r')"
  proof (rule for_each_invariant[where P = "placed_state mp (cur pf) n", OF b s])
    fix j t t' assume u: "placed_state mp (cur pf) n t"
      and l: "for_each [0..<nat nNew] (hyps_attempt E mp hyps j) t = Done t'"
    show "placed_state mp (cur pf) n t'"
      by (rule for_each_invariant[where P = "placed_state mp (cur pf) n", OF l u])
         (rule hyps_attempt_placed)
  qed
  with finish_resample_placed[OF f] show ?thesis by (auto simp: placed_state_def)
qed

lemma pf_init_map_placed:
  assumes "pf_init_map E pf mp r = Done pf'"
  shows "placed mp src 0 (cur pf')"
proof -
  define s1 where "s1 = (sets pf (current_set pf))
     \<lparr>kdtree := pf_kdtree_clear E (kdtree (sets pf (current_set pf))), sample_count := max_samples pf\<rparr>"
  define n where "n = nat (max_samples pf)"
  define draw where "draw = run_do_while (draw_map_zero E mp) (free_cell mp)"
  define P where "P = (\<lambda>k (st :: 'a pf_sample_set \<times> 'b).
     sample_count (fst st) = max_samples pf \<and> k \<le> length (samples (fst st))
     \<and> (\<forall>i < k. free_cell mp (pose (samples (fst st) ! i))))"
  from assms obtain s2 r2 where
    loop: "for_each [0..<n] (init_sample E pf draw) (s1, r) = Done (s2, r2)"
    and c: "pf_cluster_stats E s2 = Done (cur pf')"
    by (auto simp: pf_init_map_def init_with_def Let_def bind_eq_Done s1_def n_def cur_def draw_def)
  have "P n (s2, r2)"
  proof (rule for_each_upt_invariant[OF loop])
    show "P 0 (s1, r)" by (simp add: P_def s1_def)
  next
    fix i t t' assume "i < n" and Pt: "P i t" and b: "init_sample E pf draw i t = Done t'"
    obtain s0 r0 where t: "t = (s0, r0)" by (cases t) auto
    from b obtain p r1 where d: "draw r0 = Done (p, r1)" and i: "i < length (samples s0)"
      and t': "t' = (s0\<lparr>samples := (samples s0)[i := \<lparr>pose = p, weight = 1 / real_of_int (max_samples pf)\<rparr>],
                       kdtree := pf_kdtree_insert E (kdtree s0) p (1 / real_of_int (max_samples pf))\<rparr>, r1)"
      by (auto simp: init_sample_def t bind_eq_Done Let_def split: if_splits)
    have "free_cell mp p" using d unfolding draw_def by (rule run_do_while_accepts)
    then show "P (Suc i) t'"
      using Pt i by (auto simp: P_def t t' nth_list_update less_Suc_eq)
  qed
  then have "sample_count s2 = max_samples pf" "nat (max_samples pf) \<le> length (samples s2)"
    "\<forall>i < nat (max_samples pf). free_cell mp (pose (samples s2 ! i))"
    by (simp_all add: P_def n_def)
  moreover have "samples (cur pf') = samples s2" "sample_count (cur pf') = sample_count s2"
    using pf_cluster_stats_frame[OF c] by simp_all
  ultimately show ?thesis
    unfolding placed_def by simp
qed

text \<open>C6, as stated, fails for the samples a resampler copies from the current set:
  on the example filter, whose two samples lie in an occupied cell,
  \<open>pf_update_resample_map\<close> returns a set whose first sample is one of them.\<close>

theorem resample_map_keeps_occupied_sample:
  "\<exists>pf'. run_call ex_extern ex_pf (Call_resample_map ex_map) 0 = Done pf'
      \<and> sample_count (cur pf') = 3
      \<and> \<not> free_cell ex_map (pose (samples (cur pf') ! 0))"
  using ex_resample_map by blast

text \<open>C6 (amended). After \<open>pf_init_map\<close> returns, every sample of the current set lies
  in a valid cell with \<open>occ_state = -1\<close>. After \<open>pf_update_resample_map\<close>,
  \<open>pf_update_resample_hyps\<close> or \<open>pf_update_resample_addParticle\<close> returns, the new
  current set is a run of samples copied from the buffer of the old current set,
  followed by the injected samples, and every injected sample lies in a valid cell
  with \<open>occ_state = -1\<close>.\<close>

theorem injected_samples_free:
  assumes "run_call E pf c r = Done pf'" and "free_cell_map c = Some mp"
  shows "\<exists>n. copied_then_free mp (cur pf) (cur pf') n \<and> (is_resample c \<or> n = 0)"
proof (cases c)
  case (Call_init_map m)
  with assms have "pf_init_map E pf mp r = Done pf'" by simp
  then have "copied_then_free mp (cur pf) (cur pf') 0"
    by (rule placed_copied_then_free[OF pf_init_map_placed])
  then show ?thesis by blast
next
  case (Call_resample_addParticle k m)
  with assms have "pf_update_resample_addParticle E pf k mp r = Done pf'" by simp
  from pf_update_resample_addParticle_placed[OF this] obtain n where "placed mp (cur pf) n (cur pf')" ..
  then have "copied_then_free mp (cur pf) (cur pf') n" by (rule placed_copied_then_free)
  then show ?thesis using Call_resample_addParticle by auto
next
  case (Call_resample_map m)
  with assms have "pf_update_resample_map E pf mp r = Done pf'" by simp
  from pf_update_resample_map_placed[OF this] obtain n where "placed mp (cur pf) n (cur pf')" ..
  then have "copied_then_free mp (cur pf) (cur pf') n" by (rule placed_copied_then_free)
  then show ?thesis using Call_resample_map by auto
next
  case (Call_resample_hyps m nHyp hyps nParticle)
  with assms have "pf_update_resample_hyps E pf mp nHyp hyps nParticle r = Done pf'" by simp
  from pf_update_resample_hyps_placed[OF this] obtain n where "placed mp (cur pf) n (cur pf')" ..
  then have "copied_then_free mp (cur pf) (cur pf') n" by (rule placed_copied_then_free)
  then show ?thesis using Call_resample_hyps by auto
qed (use assms(2) in simp_all)

theorem injected_samples_free_witness:
  "\<exists>pf'. run_call ex_extern ex_pf (Call_resample_map ex_map) 0 = Done pf'
      \<and> free_cell_map (Call_resample_map ex_map :: nat pf_call) = Some ex_map
      \<and> free_cell ex_map (pose (samples (cur pf') ! 2))
      \<and> (\<exists>n. copied_then_free ex_map (cur ex_pf) (cur pf') n)"
proof -
  from ex_resample_map obtain p where
    p: "run_call ex_extern ex_pf (Call_resample_map ex_map) 0 = Done p"
    and f: "free_cell ex_map (pose (samples (cur p) ! 2))" by blast
  have m: "free_cell_map (Call_resample_map ex_map :: nat pf_call) = Some ex_map" by simp
  from injected_samples_free[OF p m] show ?thesis using p m f by blast
qed

section \<open>The double buffer\<close>

lemma flip_index:
  assumes "cs = 0 \<or> cs = 1"
  shows "(cs + 1) smod 2 = 1 - (cs :: int)"
  using assms by (auto simp: signed_modulo_int_def)

lemma keeps_source_finish:
  assumes "run_call E pf c r = Done pf'" and "is_resample c" and "\<not> reuses_source c"
  shows "\<exists>sb d. finish_resample E pf sb d = Done pf'"
  using assms
  by (cases c)
     (auto simp: pf_update_resample_def pf_update_resample_addParticle_def
                 pf_update_resample_map_def pf_update_resample_hyps_def bind_eq_Done)

lemma reuses_source_finish:
  assumes "run_call E pf c r = Done pf'" and "reuses_source c"
  shows "\<exists>sa sb d. finish_resample E (pf\<lparr>sets := (sets pf)(current_set pf := sa)\<rparr>) sb d = Done pf'"
  using assms
  by (cases c)
     (auto simp: pf_update_resample_hyps_2_def pf_update_resample_hyps_3_def Let_def bind_eq_Done
           split: if_splits)


text \<open>The source set of \<open>pf_update_resample_hyps_2\<close>.\<close>

lemma push_sample_appending:
  assumes p: "push_sample t tmp w = Done t'" and a: "appending mp s t" and f: "free_cell mp tmp"
  shows "appending mp s t'"
proof -
  from p have ok: "0 \<le> sample_count t" "nat (sample_count t) < length (samples t)"
    and t': "t' = t\<lparr>samples := (samples t)[nat (sample_count t) := \<lparr>pose = tmp, weight = w\<rparr>],
                    sample_count := sample_count t + 1\<rparr>"
    by (auto simp: push_sample_def slot_ok_def split: if_splits)
  have n: "nat (sample_count t + 1) = Suc (nat (sample_count t))" using ok by simp
  have "sample_count s \<le> sample_count t" using a by (simp add: appending_def)
  then have le: "nat (sample_count s) \<le> nat (sample_count t)" by simp
  show ?thesis
    unfolding appending_def
  proof (intro conjI allI impI)
    fix i assume "i < nat (sample_count s)"
    then have "i \<noteq> nat (sample_count t)" using le by simp
    then show "samples t' ! i = samples s ! i"
      using a \<open>i < nat (sample_count s)\<close> by (simp add: t' appending_def)
  next
    fix i assume i: "nat (sample_count s) \<le> i \<and> i < nat (sample_count t')"
    show "free_cell mp (pose (samples t' ! i))"
    proof (cases "i = nat (sample_count t)")
      case True
      then show ?thesis using ok f by (simp add: t')
    next
      case False
      then have "i < nat (sample_count t)" using i n by (simp add: t')
      then show ?thesis using a i False by (simp add: t' appending_def)
    qed
  next
    fix i assume "nat (sample_count t') \<le> i"
    then have "Suc (nat (sample_count t)) \<le> i" using n by (simp add: t')
    then show "samples t' ! i = samples s ! i" using a by (simp add: t' appending_def)
  qed (use a in \<open>auto simp: t' appending_def\<close>)
qed

lemma hyps_2_attempt_appending:
  assumes "hyps_2_attempt E mp hyps j i st = Done st'" and "appending mp s (fst st)"
  shows "appending mp s (fst st')"
  using assms
  by (auto simp: hyps_2_attempt_def bind_eq_Done split: prod.splits if_splits
           dest: push_sample_appending)

lemma uniform_weight_loop:
  assumes "for_each [0..<n] uniform_weight t = Done t'"
  shows "n \<le> length (samples t) \<and> sample_count t' = sample_count t
       \<and> kdtree t' = kdtree t \<and> cluster_count t' = cluster_count t
       \<and> cluster_max_count t' = cluster_max_count t \<and> clusters t' = clusters t
       \<and> length (samples t') = length (samples t)
       \<and> (\<forall>i. pose (samples t' ! i) = pose (samples t ! i))
       \<and> (\<forall>i < n. weight (samples t' ! i) = 1 / real_of_int (sample_count t))
       \<and> (\<forall>i. n \<le> i \<longrightarrow> samples t' ! i = samples t ! i)"
proof -
  define P where "P = (\<lambda>k (u :: 'a pf_sample_set).
       k \<le> length (samples t) \<and> sample_count u = sample_count t
       \<and> kdtree u = kdtree t \<and> cluster_count u = cluster_count t
       \<and> cluster_max_count u = cluster_max_count t \<and> clusters u = clusters t
       \<and> length (samples u) = length (samples t)
       \<and> (\<forall>i. pose (samples u ! i) = pose (samples t ! i))
       \<and> (\<forall>i < k. weight (samples u ! i) = 1 / real_of_int (sample_count t))
       \<and> (\<forall>i. k \<le> i \<longrightarrow> samples u ! i = samples t ! i))"
  have "P n t'"
  proof (rule for_each_upt_invariant[where P = P, OF assms])
    show "P 0 t" by (simp add: P_def)
  next
    fix i u u' assume i: "i < n" and Pu: "P i u" and b: "uniform_weight i u = Done u'"
    from b have il: "i < length (samples u)"
      and u': "u' = u\<lparr>samples := (samples u)[i := (samples u ! i)\<lparr>weight := 1 / real_of_int (sample_count u)\<rparr>]\<rparr>"
      by (auto simp: uniform_weight_def split: if_splits)
    show "P (Suc i) u'"
      unfolding P_def
    proof (intro conjI allI impI)
      show "Suc i \<le> length (samples t)" using il Pu by (simp add: P_def)
    next
      fix k show "pose (samples u' ! k) = pose (samples t ! k)"
        using Pu il by (cases "k = i") (simp_all add: u' P_def)
    next
      fix k assume "k < Suc i"
      then show "weight (samples u' ! k) = 1 / real_of_int (sample_count t)"
        using Pu il by (cases "k = i") (simp_all add: u' P_def)
    next
      fix k assume "Suc i \<le> k"
      then show "samples u' ! k = samples t ! k" using Pu by (simp add: u' P_def)
    qed (use Pu in \<open>auto simp: u' P_def\<close>)
  qed
  then show ?thesis by (simp add: P_def)
qed

lemma pf_update_resample_hyps_2_source:
  assumes run: "pf_update_resample_hyps_2 E pf mp nHyp hyps over_head r = Done pf'"
    and cs: "current_set pf = 0 \<or> current_set pf = 1"
  shows "appended_and_reweighted mp (sets pf (current_set pf)) (sets pf' (current_set pf))"
proof -
  define s where "s = sets pf (current_set pf)"
  from run obtain nNew s1 r1 s2 sb tw r2 where
    inj: "for_each [0..<nat nHyp] (\<lambda>j. for_each [0..<nat nNew] (hyps_2_attempt E mp hyps j)) (s, r)
            = Done (s1, r1)"
    and uw: "for_each [0..<nat (sample_count s1)] uniform_weight s1 = Done s2"
    and fin: "finish_resample E (pf\<lparr>sets := (sets pf)(current_set pf := s2)\<rparr>) sb
                (real_of_int (sample_count sb)) = Done pf'"
    by (auto simp: pf_update_resample_hyps_2_def Let_def bind_eq_Done s_def split: if_splits)
  have "current_set pf \<noteq> (current_set pf + 1) smod 2"
    using cs by (auto simp: signed_modulo_int_def)
  with finish_resample_cur[OF fin] have s': "sets pf' (current_set pf) = s2" by auto
  have a0: "appending mp s (fst (s, r))" by (auto simp: appending_def)
  have "appending mp s (fst (s1, r1))"
  proof (rule for_each_invariant[where P = "\<lambda>u. appending mp s (fst u)", OF inj a0])
    fix j u u' assume u: "appending mp s (fst u)"
      and l: "for_each [0..<nat nNew] (hyps_2_attempt E mp hyps j) u = Done u'"
    show "appending mp s (fst u')"
      by (rule for_each_invariant[where P = "\<lambda>u. appending mp s (fst u)", OF l u])
         (rule hyps_2_attempt_appending)
  qed
  then have a1: "appending mp s s1" by simp
  note u = uniform_weight_loop[OF uw]
  define n where "n = nat (sample_count s1)"
  have n: "n \<le> length (samples s2)" "sample_count s2 = sample_count s1"
    using u by (simp_all add: n_def)
  have "sample_count s \<le> sample_count s1" using a1 by (simp add: appending_def)
  then have le: "nat (sample_count s) \<le> n" by (simp add: n_def)
  have w: "map weight (live_samples s2) = replicate (nat (sample_count s2)) (1 / real_of_int (sample_count s2))"
    using u n by (intro nth_equalityI) (auto simp: live_samples_def n_def)
  have p: "map pose (take (nat (sample_count s)) (samples s2))
           = map pose (take (nat (sample_count s)) (samples s))"
  proof (intro nth_equalityI)
    show "length (map pose (take (nat (sample_count s)) (samples s2)))
          = length (map pose (take (nat (sample_count s)) (samples s)))"
      using u a1 by (simp add: appending_def)
  next
    fix i assume "i < length (map pose (take (nat (sample_count s)) (samples s2)))"
    then have i: "i < nat (sample_count s)" "i < length (samples s2)" by simp_all
    then have "pose (samples s2 ! i) = pose (samples s ! i)"
      using u a1 by (simp add: appending_def)
    then show "map pose (take (nat (sample_count s)) (samples s2)) ! i
               = map pose (take (nat (sample_count s)) (samples s)) ! i"
      using i u a1 by (simp add: appending_def)
  qed
  have f: "list_all (\<lambda>x. free_cell mp (pose x)) (drop (nat (sample_count s)) (live_samples s2))"
    unfolding list_all_length
  proof (intro allI impI)
    fix i assume "i < length (drop (nat (sample_count s)) (live_samples s2))"
    then have i: "nat (sample_count s) + i < n"
      using n by (simp add: live_samples_def n_def)
    then have "free_cell mp (pose (samples s1 ! (nat (sample_count s) + i)))"
      using a1 by (simp add: appending_def n_def)
    then have "free_cell mp (pose (samples s2 ! (nat (sample_count s) + i)))"
      using u by simp
    then show "free_cell mp (pose (drop (nat (sample_count s)) (live_samples s2) ! i))"
      using i n by (simp add: live_samples_def n_def)
  qed
  have d: "drop (nat (sample_count s2)) (samples s2) = drop (nat (sample_count s2)) (samples s)"
  proof (intro nth_equalityI)
    show "length (drop (nat (sample_count s2)) (samples s2))
          = length (drop (nat (sample_count s2)) (samples s))"
      using u a1 by (simp add: appending_def)
  next
    fix i assume "i < length (drop (nat (sample_count s2)) (samples s2))"
    then have i: "n + i < length (samples s2)" using n by (simp add: n_def)
    have "samples s2 ! (n + i) = samples s1 ! (n + i)" using u by (simp add: n_def)
    also have "\<dots> = samples s ! (n + i)" using a1 by (simp add: appending_def n_def)
    finally show "drop (nat (sample_count s2)) (samples s2) ! i
                  = drop (nat (sample_count s2)) (samples s) ! i"
      using i n u a1 by (simp add: n_def appending_def)
  qed
  have "appended_and_reweighted mp s s2"
    unfolding appended_and_reweighted_def
    using w p f d u a1 by (simp add: appending_def)
  then show ?thesis by (simp add: s' s_def)
qed

text \<open>The source set of \<open>pf_update_resample_hyps_3\<close>.\<close>

lemma add_sample_frame:
  assumes "add_sample E s p w = Done s'"
  shows "cluster_count s' = cluster_count s \<and> cluster_max_count s' = cluster_max_count s
       \<and> clusters s' = clusters s"
  using assms
  by (auto simp: add_sample_def push_sample_def bind_eq_Done split: if_splits)

lemma add_sample_cloud:
  assumes a: "add_sample E t p 1 = Done t'" and c: "hypothesis_cloud mp s t"
    and p: "v2 p = 0" "free_cell mp p"
  shows "hypothesis_cloud mp s t'"
proof -
  note n = add_sample_nth[OF a]
  have k: "nat (sample_count t') = Suc (nat (sample_count t))" using n by auto
  have "list_all (\<lambda>x. weight x = 1 \<and> v2 (pose x) = 0 \<and> free_cell mp (pose x)) (live_samples t')"
    unfolding list_all_length
  proof (intro allI impI)
    fix i assume "i < length (live_samples t')"
    then have i: "i < Suc (nat (sample_count t))" using k by (simp add: live_samples_def)
    show "weight (live_samples t' ! i) = 1 \<and> v2 (pose (live_samples t' ! i)) = 0
          \<and> free_cell mp (pose (live_samples t' ! i))"
    proof (cases "i = nat (sample_count t)")
      case True
      then show ?thesis using n p k by (simp add: live_samples_def)
    next
      case False
      then have il: "i < nat (sample_count t)" using i by simp
      then have "i < length (live_samples t)" using c by (simp add: hypothesis_cloud_def live_samples_def)
      then have "weight (live_samples t ! i) = 1 \<and> v2 (pose (live_samples t ! i)) = 0
          \<and> free_cell mp (pose (live_samples t ! i))"
        using c by (simp add: hypothesis_cloud_def list_all_length)
      then show ?thesis using n False il k by (simp add: live_samples_def)
    qed
  qed
  moreover have "nat (sample_count t') \<le> length (samples t')" using n k by auto
  moreover have "0 \<le> sample_count t'" using n by auto
  ultimately show ?thesis
    using c n add_sample_frame[OF a] by (simp add: hypothesis_cloud_def)
qed

lemma hyps_3_attempt_cloud:
  assumes "hyps_3_attempt E mp hyps j st = Done st'" and "hypothesis_cloud mp s (fst st)"
  shows "hypothesis_cloud mp s (fst st')"
proof -
  obtain t r where st: "st = (t, r)" by (cases st) auto
  obtain tmp r' where d: "draw_hyp_zero E (hyps ! j) r = (tmp, r')"
    by (cases "draw_hyp_zero E (hyps ! j) r") auto
  then have z: "v2 tmp = 0"
    by (auto simp: draw_hyp_zero_def Let_def split: prod.splits)
  show ?thesis
  proof (cases "free_cell mp tmp")
    case False
    then show ?thesis using assms by (auto simp: hyps_3_attempt_def st d split: if_splits)
  next
    case True
    with assms(1) obtain t' where "add_sample E t tmp 1 = Done t'" and "st' = (t', r')"
      by (auto simp: hyps_3_attempt_def st d bind_eq_Done split: if_splits)
    then show ?thesis using add_sample_cloud[OF _ _ z True] assms(2) by (simp add: st)
  qed
qed

lemma hyps_3_while_cloud:
  assumes "hyps_3_while E pf mp hyps j n st = Some (Done st')"
    and "hypothesis_cloud mp s (fst st)"
  shows "hypothesis_cloud mp s (fst st')"
proof -
  have "\<forall>t'. Done st' = Done t' \<longrightarrow> hypothesis_cloud mp s (fst st)
          \<longrightarrow> hypothesis_cloud mp s (fst t')"
    by (rule hyps_3_while.raw_induct[where
          P = "\<lambda>E pf mp hyps j n st y. \<forall>t'. y = Done t' \<longrightarrow>
                 hypothesis_cloud mp s (fst st) \<longrightarrow> hypothesis_cloud mp s (fst t')",
          OF _ assms(1)])
       (auto split: if_splits outcome.splits dest: hyps_3_attempt_cloud)
  then show ?thesis using assms(2) by simp
qed

lemma hyps_3_cloud_source:
  assumes "hyps_3_cloud E pf mp hyps nMinPart nNewSample j st = Done st'"
    and "length (samples (fst st)) = length (samples s)"
    and "cluster_count (fst st) = cluster_count s"
    and "cluster_max_count (fst st) = cluster_max_count s"
    and "clusters (fst st) = clusters s"
  shows "hypothesis_cloud mp s (fst st')"
proof -
  obtain sa sb r where st: "st = (sa, sb, r)" by (cases st) auto
  define sa0 where "sa0 = sa\<lparr>sample_count := 0, kdtree := pf_kdtree_clear E (kdtree sa)\<rparr>"
  from assms(1) obtain st1 sa2 r2 sb3 r3 where
    a: "for_each [0..<nat nMinPart] (\<lambda>i. hyps_3_attempt E mp hyps j) (sa0, r) = Done st1"
    and w: "run_hyps_3_while E pf mp hyps j nNewSample st1 = Done (sa2, r2)"
    and st': "st' = (sa2, sb3, r3)"
    by (auto simp: hyps_3_cloud_def st Let_def bind_eq_Done sa0_def)
  have c0: "hypothesis_cloud mp s (fst (sa0, r))"
    using assms(2-5) by (simp add: hypothesis_cloud_def sa0_def st live_samples_def)
  have c1: "hypothesis_cloud mp s (fst st1)"
    by (rule for_each_invariant[where P = "\<lambda>u. hypothesis_cloud mp s (fst u)", OF a c0])
       (rule hyps_3_attempt_cloud)
  from w have "hyps_3_while E pf mp hyps j nNewSample st1 = Some (Done (sa2, r2))"
    by (auto simp: run_hyps_3_while_def split: option.splits)
  from hyps_3_while_cloud[OF this c1] show ?thesis by (simp add: st')
qed

lemma pf_update_resample_hyps_3_source:
  assumes run: "pf_update_resample_hyps_3 E pf mp nHyp hyps r = Done pf'"
    and cs: "current_set pf = 0 \<or> current_set pf = 1"
  shows "(0 < nHyp \<longrightarrow> hypothesis_cloud mp (sets pf (current_set pf)) (sets pf' (current_set pf)))
       \<and> (nHyp < 0 \<longrightarrow> sets pf' (current_set pf) = sets pf (current_set pf))"
proof -
  define s where "s = sets pf (current_set pf)"
  from run obtain sb r1 nMin nNew sa' sb' r2 where
    b: "for_each [0..<nat nHyp] (hyps_3_cloud E pf mp hyps nMin nNew) (s, sb, r1) = Done (sa', sb', r2)"
    and fin: "finish_resample E (pf\<lparr>sets := (sets pf)(current_set pf := sa')\<rparr>) sb'
                (real_of_int (sample_count sb')) = Done pf'"
    by (auto simp: pf_update_resample_hyps_3_def Let_def bind_eq_Done s_def split: if_splits)
  have "current_set pf \<noteq> (current_set pf + 1) smod 2"
    using cs by (auto simp: signed_modulo_int_def)
  with finish_resample_cur[OF fin] have s': "sets pf' (current_set pf) = sa'" by auto
  define P where "P = (\<lambda>(k :: nat) (u :: 'a pf_sample_set \<times> 'a pf_sample_set \<times> 'b).
       length (samples (fst u)) = length (samples s) \<and> cluster_count (fst u) = cluster_count s
       \<and> cluster_max_count (fst u) = cluster_max_count s \<and> clusters (fst u) = clusters s
       \<and> (0 < k \<longrightarrow> hypothesis_cloud mp s (fst u)) \<and> (k = 0 \<longrightarrow> fst u = s))"
  have "P (nat nHyp) (sa', sb', r2)"
  proof (rule for_each_upt_invariant[where P = P, OF b])
    show "P 0 (s, sb, r1)" by (simp add: P_def)
  next
    fix i u u' assume "i < nat nHyp" and Pu: "P i u"
      and c: "hyps_3_cloud E pf mp hyps nMin nNew i u = Done u'"
    from Pu have "hypothesis_cloud mp s (fst u')"
      by (intro hyps_3_cloud_source[OF c]) (simp_all add: P_def)
    then show "P (Suc i) u'" by (simp add: P_def hypothesis_cloud_def)
  qed
  then show ?thesis by (cases "0 < nHyp") (auto simp: P_def s' s_def)
qed

lemma ex_hyps_2_source:
  "\<exists>pf'. run_call ex_extern ex_pf (Call_resample_hyps_2 ex_map 1 [ex_hyp] 0) 0 = Done pf'
      \<and> sample_count (sets pf' (current_set ex_pf)) = 3
      \<and> map weight (live_samples (sets pf' (current_set ex_pf))) = [1 / 3, 1 / 3, 1 / 3]"
  by (simp add: pf_update_resample_hyps_2_def hyps_2_attempt_def uniform_weight_def
        ex_defs step_defs map_defs weight_sum_def live_samples_def)

text \<open>The samples \<open>pf_update_resample_hyps_2\<close> appends to the source set.\<close>

lemma add_sample_live:
  assumes "add_sample E s p w = Done s'"
  shows "live_samples s' = live_samples s @ [\<lparr>pose = p, weight = w\<rparr>]
       \<and> 0 \<le> sample_count s' \<and> nat (sample_count s') \<le> length (samples s')"
proof -
  note n = add_sample_nth[OF assms]
  define k where "k = nat (sample_count s)"
  have k: "nat (sample_count s') = Suc k" "k < length (samples s')" using n by (auto simp: k_def)
  have "take (Suc k) (samples s') = take k (samples s') @ [samples s' ! k]"
    using k by (simp add: take_Suc_conv_app_nth)
  moreover have "take k (samples s') = take k (samples s)"
    using n k by (intro nth_equalityI) (auto simp: k_def)
  ultimately show ?thesis using n k by (auto simp: live_samples_def k_def)
qed


lemma push_sample_live:
  assumes "push_sample s p w = Done s'"
  shows "live_samples s' = live_samples s @ [\<lparr>pose = p, weight = w\<rparr>]"
proof -
  from assms have ok: "0 \<le> sample_count s" "nat (sample_count s) < length (samples s)"
    and s': "s' = s\<lparr>samples := (samples s)[nat (sample_count s) := \<lparr>pose = p, weight = w\<rparr>],
                    sample_count := sample_count s + 1\<rparr>"
    by (auto simp: push_sample_def slot_ok_def split: if_splits)
  define k where "k = nat (sample_count s)"
  have k: "nat (sample_count s') = Suc k" using ok by (simp add: s' k_def)
  have "take (Suc k) (samples s') = take k (samples s') @ [samples s' ! k]"
    using ok by (simp add: take_Suc_conv_app_nth s' k_def)
  moreover have "take k (samples s') = take k (samples s)" by (simp add: s' k_def)
  ultimately show ?thesis using ok k by (simp add: live_samples_def s' k_def)
qed

lemma hyps_2_attempts_draws:
  assumes "for_each xs (hyps_2_attempt E mp hyps j) (sa, r) = Done (sa', r')"
  shows "map pose (live_samples sa')
           = map pose (live_samples sa)
             @ filter (free_cell mp) (fst (hyp_draws E (hyps ! j) (length xs) r))
       \<and> r' = snd (hyp_draws E (hyps ! j) (length xs) r)"
  using assms
proof (induction xs arbitrary: sa r)
  case Nil
  then show ?case by simp
next
  case (Cons i xs)
  obtain tmp r1 where d: "draw_hyp E (hyps ! j) r = (tmp, r1)"
    by (cases "draw_hyp E (hyps ! j) r") auto
  obtain ps r2 where h: "hyp_draws E (hyps ! j) (length xs) r1 = (ps, r2)"
    by (cases "hyp_draws E (hyps ! j) (length xs) r1") auto
  from Cons.prems obtain t where
    t: "hyps_2_attempt E mp hyps j i (sa, r) = Done t"
    and l: "for_each xs (hyps_2_attempt E mp hyps j) t = Done (sa', r')"
    by (auto simp: bind_eq_Done)
  show ?case
  proof (cases "free_cell mp tmp")
    case False
    with t d have "t = (sa, r1)" by (auto simp: hyps_2_attempt_def split: if_splits)
    with Cons.IH[of sa r1] l h d False show ?thesis by simp
  next
    case True
    with t d obtain sa1 where a: "push_sample sa tmp 1 = Done sa1" and "t = (sa1, r1)"
      by (auto simp: hyps_2_attempt_def bind_eq_Done split: if_splits)
    with Cons.IH[of sa1 r1] l h d True push_sample_live[OF a] show ?thesis by simp
  qed
qed

lemma hyps_2_inject_draws:
  assumes "for_each js (\<lambda>j. for_each [0..<n] (hyps_2_attempt E mp hyps j)) (sa, r) = Done (sa', r')"
  shows "map pose (live_samples sa')
           = map pose (live_samples sa) @ filter (free_cell mp) (hyps_candidates E hyps js n r)"
  using assms
proof (induction js arbitrary: sa r)
  case Nil
  then show ?case by simp
next
  case (Cons j js)
  from Cons.prems obtain sa1 r1 where
    a: "for_each [0..<n] (hyps_2_attempt E mp hyps j) (sa, r) = Done (sa1, r1)"
    and l: "for_each js (\<lambda>j. for_each [0..<n] (hyps_2_attempt E mp hyps j)) (sa1, r1) = Done (sa', r')"
    by (auto simp: bind_eq_Done)
  obtain ps r2 where h: "hyp_draws E (hyps ! j) n r = (ps, r2)"
    by (cases "hyp_draws E (hyps ! j) n r") auto
  from hyps_2_attempts_draws[OF a] h
  have "map pose (live_samples sa1) = map pose (live_samples sa) @ filter (free_cell mp) ps"
    and "r1 = r2" by simp_all
  with Cons.IH[OF l] h show ?case by simp
qed

lemma pf_update_resample_hyps_2_appends:
  assumes run: "pf_update_resample_hyps_2 E pf mp nHyp hyps over_head r = Done pf'"
    and cs: "current_set pf = 0 \<or> current_set pf = 1"
  shows "map pose (live_samples (sets pf' (current_set pf)))
         = map pose (live_samples (sets pf (current_set pf)))
           @ filter (free_cell mp)
               (hyps_candidates E hyps [0..<nat nHyp]
                  (nat ((max_samples pf - sample_count (sets pf (current_set pf))) sdiv nHyp)) r)"
proof -
  define s where "s = sets pf (current_set pf)"
  define nNew where "nNew = (max_samples pf - sample_count s) sdiv nHyp"
  from run obtain s1 r1 s2 sb tw r2 where
    inj: "for_each [0..<nat nHyp] (\<lambda>j. for_each [0..<nat nNew] (hyps_2_attempt E mp hyps j)) (s, r)
            = Done (s1, r1)"
    and uw: "for_each [0..<nat (sample_count s1)] uniform_weight s1 = Done s2"
    and fin: "finish_resample E (pf\<lparr>sets := (sets pf)(current_set pf := s2)\<rparr>) sb
                (real_of_int (sample_count sb)) = Done pf'"
    by (auto simp: pf_update_resample_hyps_2_def Let_def bind_eq_Done s_def nNew_def split: if_splits)
  have "current_set pf \<noteq> (current_set pf + 1) smod 2"
    using cs by (auto simp: signed_modulo_int_def)
  with finish_resample_cur[OF fin] have s': "sets pf' (current_set pf) = s2" by auto
  note u = uniform_weight_loop[OF uw]
  have "map pose (live_samples s2) = map pose (live_samples s1)"
    using u by (intro nth_equalityI) (auto simp: live_samples_def)
  with hyps_2_inject_draws[OF inj] show ?thesis by (simp add: s' s_def nNew_def)
qed

text \<open>A resampler changes the two sample sets and \<open>current_set\<close>, nothing else.\<close>

lemma resample_changes_sets_only:
  assumes "run_call E pf c r = Done pf'" and "is_resample c"
    and cs: "current_set pf = 0 \<or> current_set pf = 1"
  shows "pf' = pf\<lparr>sets := (sets pf)(current_set pf := sets pf' (current_set pf),
                                    1 - current_set pf := cur pf'),
                  current_set := 1 - current_set pf\<rparr>"
proof -
  have ne: "current_set pf \<noteq> 1 - current_set pf" using cs by auto
  show ?thesis
  proof (cases "reuses_source c")
    case True
    from reuses_source_finish[OF assms(1) True] obtain sa sb d where
      f: "finish_resample E (pf\<lparr>sets := (sets pf)(current_set pf := sa)\<rparr>) sb d = Done pf'"
      by blast
    from finish_resample_shape[OF f] flip_index[OF cs]
    have s: "pf' = pf\<lparr>sets := (sets pf)(current_set pf := sa, 1 - current_set pf := cur pf'),
                       current_set := 1 - current_set pf\<rparr>"
      by simp
    have "sets pf' (current_set pf) = sa" using ne by (subst s) simp
    with s show ?thesis by simp
  next
    case False
    from keeps_source_finish[OF assms(1,2) False] obtain sb d where
      f: "finish_resample E pf sb d = Done pf'" by blast
    from finish_resample_shape[OF f] flip_index[OF cs]
    have s: "pf' = pf\<lparr>sets := (sets pf)(1 - current_set pf := cur pf'),
                       current_set := 1 - current_set pf\<rparr>"
      by simp
    have "sets pf' (current_set pf) = sets pf (current_set pf)" using ne by (subst s) simp
    then have "(sets pf)(current_set pf := sets pf' (current_set pf), 1 - current_set pf := cur pf')
               = (sets pf)(1 - current_set pf := cur pf')"
      by (auto simp: fun_eq_iff)
    with s show ?thesis by simp
  qed
qed

text \<open>C7, as stated, fails for \<open>pf_update_resample_hyps_3\<close>, which empties the current
  set and refills it for each hypothesis: on the example filter the source set holds 2
  samples before the call and 1 after it. It fails for \<open>pf_update_resample_hyps_2\<close>
  as well, which appends to the current set and rewrites its weights: the source set
  holds the weights 3/4 and 1/4 before the call and three weights 1/3 after it.\<close>

theorem hyps_3_overwrites_source:
  "(\<exists>pf'. run_call ex_extern ex_pf (Call_resample_hyps_3 ex_map 1 [ex_hyp]) 0 = Done pf'
      \<and> sample_count (sets ex_pf (current_set ex_pf)) = 2
      \<and> sample_count (sets pf' (current_set ex_pf)) = 1)
   \<and> (\<exists>pf'. run_call ex_extern ex_pf (Call_resample_hyps_2 ex_map 1 [ex_hyp] 0) 0 = Done pf'
      \<and> map weight (live_samples (sets ex_pf (current_set ex_pf))) = [3 / 4, 1 / 4]
      \<and> map weight (live_samples (sets pf' (current_set ex_pf))) = [1 / 3, 1 / 3, 1 / 3])"
proof -
  have "map weight (live_samples (sets ex_pf (current_set ex_pf))) = [3 / 4, 1 / 4]"
    by (simp add: ex_pf_def ex_set_def live_samples_def)
  moreover from ex_hyps_2_source obtain q where
    "run_call ex_extern ex_pf (Call_resample_hyps_2 ex_map 1 [ex_hyp] 0) 0 = Done q"
    "map weight (live_samples (sets q (current_set ex_pf))) = [1 / 3, 1 / 3, 1 / 3]"
    by auto
  ultimately have "\<exists>pf'. run_call ex_extern ex_pf (Call_resample_hyps_2 ex_map 1 [ex_hyp] 0) 0 = Done pf'
      \<and> map weight (live_samples (sets ex_pf (current_set ex_pf))) = [3 / 4, 1 / 4]
      \<and> map weight (live_samples (sets pf' (current_set ex_pf))) = [1 / 3, 1 / 3, 1 / 3]"
    by (intro exI[of _ q]) simp
  with ex_hyps_3 show ?thesis by (rule conjI)
qed

text \<open>C7 (amended). Every resampling operation that returns has flipped
  \<open>current_set\<close> to the other index and has changed nothing of the filter but the two
  sample sets and \<open>current_set\<close>. \<open>pf_update_resample\<close>,
  \<open>pf_update_resample_addParticle\<close>, \<open>pf_update_resample_map\<close> and
  \<open>pf_update_resample_hyps\<close> moreover change nothing of the filter but the scratch set
  and \<open>current_set\<close>: the source set keeps its samples, weights and \<open>sample_count\<close>.
  \<open>pf_update_resample_hyps_2\<close> appends to the source set the accepted ones among the
  candidates drawn around each hypothesis in turn, \<open>(max_samples - sample_count) / nHyp\<close>
  for each, and sets the weight of each of its samples to \<open>1 / sample_count\<close>, leaving
  the poses of the old samples and the rest of the set as they were.
  \<open>pf_update_resample_hyps_3\<close>, run for at least one hypothesis, leaves in the source set
  only accepted hypothesis draws, each of weight 1 and heading 0; run for a negative
  number of hypotheses it leaves the source set unchanged.\<close>

theorem resample_flips_current_set:
  assumes "run_call E pf c r = Done pf'" and "is_resample c"
    and "current_set pf = 0 \<or> current_set pf = 1"
  shows "current_set pf' = 1 - current_set pf
       \<and> pf' = pf\<lparr>sets := (sets pf)(current_set pf := sets pf' (current_set pf),
                                      1 - current_set pf := cur pf'),
                    current_set := 1 - current_set pf\<rparr>
       \<and> (\<not> reuses_source c \<longrightarrow>
            pf' = pf\<lparr>sets := (sets pf)(1 - current_set pf := cur pf'),
                     current_set := 1 - current_set pf\<rparr>
            \<and> sets pf' (current_set pf) = sets pf (current_set pf))
       \<and> (\<forall>mp nHyp hyps over_head. c = Call_resample_hyps_2 mp nHyp hyps over_head \<longrightarrow>
            appended_and_reweighted mp (sets pf (current_set pf)) (sets pf' (current_set pf))
            \<and> map pose (live_samples (sets pf' (current_set pf)))
                = map pose (live_samples (sets pf (current_set pf)))
                  @ filter (free_cell mp)
                      (hyps_candidates E hyps [0..<nat nHyp]
                         (nat ((max_samples pf - sample_count (sets pf (current_set pf))) sdiv nHyp))
                         r))
       \<and> (\<forall>mp nHyp hyps. c = Call_resample_hyps_3 mp nHyp hyps \<longrightarrow>
            (0 < nHyp \<longrightarrow>
               hypothesis_cloud mp (sets pf (current_set pf)) (sets pf' (current_set pf)))
            \<and> (nHyp < 0 \<longrightarrow> sets pf' (current_set pf) = sets pf (current_set pf)))"
proof -
  have flip: "current_set pf' = 1 - current_set pf"
    and frame: "\<not> reuses_source c \<longrightarrow>
            pf' = pf\<lparr>sets := (sets pf)(1 - current_set pf := cur pf'),
                     current_set := 1 - current_set pf\<rparr>
            \<and> sets pf' (current_set pf) = sets pf (current_set pf)"
  proof -
    show "current_set pf' = 1 - current_set pf"
    proof (cases "reuses_source c")
      case True
      from reuses_source_finish[OF assms(1) True] obtain sa sb d where
        "finish_resample E (pf\<lparr>sets := (sets pf)(current_set pf := sa)\<rparr>) sb d = Done pf'"
        by blast
      from finish_resample_cur[OF this] have "current_set pf' = (current_set pf + 1) smod 2"
        by auto
      then show ?thesis using flip_index[OF assms(3)] by simp
    next
      case False
      from keeps_source_finish[OF assms(1,2) False] obtain sb d where
        "finish_resample E pf sb d = Done pf'" by blast
      from finish_resample_cur[OF this] have "current_set pf' = (current_set pf + 1) smod 2"
        by auto
      then show ?thesis using flip_index[OF assms(3)] by simp
    qed
    show "\<not> reuses_source c \<longrightarrow>
            pf' = pf\<lparr>sets := (sets pf)(1 - current_set pf := cur pf'),
                     current_set := 1 - current_set pf\<rparr>
            \<and> sets pf' (current_set pf) = sets pf (current_set pf)"
    proof
      assume False: "\<not> reuses_source c"
      from keeps_source_finish[OF assms(1,2) False] obtain sb d where
        "finish_resample E pf sb d = Done pf'" by blast
      from finish_resample_shape[OF this] flip_index[OF assms(3)]
      have s: "pf' = pf\<lparr>sets := (sets pf)(1 - current_set pf := cur pf'),
                         current_set := 1 - current_set pf\<rparr>"
        by simp
      have "sets pf' (current_set pf) = sets pf (current_set pf)"
        using assms(3) by (subst s) auto
      then show "pf' = pf\<lparr>sets := (sets pf)(1 - current_set pf := cur pf'),
                     current_set := 1 - current_set pf\<rparr>
            \<and> sets pf' (current_set pf) = sets pf (current_set pf)"
        using s by blast
    qed
  qed
  have h2: "appended_and_reweighted mp (sets pf (current_set pf)) (sets pf' (current_set pf))
            \<and> map pose (live_samples (sets pf' (current_set pf)))
                = map pose (live_samples (sets pf (current_set pf)))
                  @ filter (free_cell mp)
                      (hyps_candidates E hyps [0..<nat nHyp]
                         (nat ((max_samples pf - sample_count (sets pf (current_set pf))) sdiv nHyp))
                         r)"
    if "c = Call_resample_hyps_2 mp nHyp hyps over_head" for mp nHyp hyps over_head
  proof -
    from assms(1) that
    have run: "pf_update_resample_hyps_2 E pf mp nHyp hyps over_head r = Done pf'" by simp
    from pf_update_resample_hyps_2_source[OF run assms(3)]
         pf_update_resample_hyps_2_appends[OF run assms(3)]
    show ?thesis by (rule conjI)
  qed
  have h3: "(0 < nHyp \<longrightarrow>
               hypothesis_cloud mp (sets pf (current_set pf)) (sets pf' (current_set pf)))
            \<and> (nHyp < 0 \<longrightarrow> sets pf' (current_set pf) = sets pf (current_set pf))"
    if "c = Call_resample_hyps_3 mp nHyp hyps" for mp nHyp hyps
    using assms(1) that by (intro pf_update_resample_hyps_3_source[OF _ assms(3)]) simp
  from flip resample_changes_sets_only[OF assms] frame h2 h3 show ?thesis by blast
qed

theorem resample_flips_current_set_witness:
  "current_set ex_pf = 0
   \<and> (\<exists>pf'. run_call ex_extern ex_pf (Call_resample 3) 0 = Done pf'
         \<and> current_set pf' = 1 \<and> sets pf' (current_set ex_pf) = sets ex_pf (current_set ex_pf))
   \<and> (\<exists>pf'. run_call ex_extern ex_pf (Call_resample_hyps_2 ex_map 1 [ex_hyp] 0) 0 = Done pf'
         \<and> current_set pf' = 1
         \<and> appended_and_reweighted ex_map (sets ex_pf (current_set ex_pf)) (sets pf' (current_set ex_pf))
         \<and> sample_count (sets pf' (current_set ex_pf)) = 3)
   \<and> (\<exists>pf'. run_call ex_extern ex_pf (Call_resample_hyps_3 ex_map 1 [ex_hyp]) 0 = Done pf'
         \<and> current_set pf' = 1
         \<and> hypothesis_cloud ex_map (sets ex_pf (current_set ex_pf)) (sets pf' (current_set ex_pf))
         \<and> sample_count (sets pf' (current_set ex_pf)) = 1)"
proof -
  have c: "current_set ex_pf = 0" by (simp add: ex_pf_def)
  from ex_resample obtain p where
    p: "run_call ex_extern ex_pf (Call_resample 3) 0 = Done p" by blast
  have "is_resample (Call_resample 3 :: nat pf_call)" by simp
  from resample_flips_current_set[OF p this] c
  have 1: "current_set p = 1 \<and> sets p (current_set ex_pf) = sets ex_pf (current_set ex_pf)"
    by simp
  from ex_hyps_2_source obtain q where
    q: "run_call ex_extern ex_pf (Call_resample_hyps_2 ex_map 1 [ex_hyp] 0) 0 = Done q"
       "sample_count (sets q (current_set ex_pf)) = 3" by blast
  have "is_resample (Call_resample_hyps_2 ex_map 1 [ex_hyp] 0 :: nat pf_call)" by simp
  from resample_flips_current_set[OF q(1) this] c
  have 2: "current_set q = 1
     \<and> appended_and_reweighted ex_map (sets ex_pf (current_set ex_pf)) (sets q (current_set ex_pf))"
    by simp
  from ex_hyps_3 obtain u where
    u: "run_call ex_extern ex_pf (Call_resample_hyps_3 ex_map 1 [ex_hyp]) 0 = Done u"
       "sample_count (sets u (current_set ex_pf)) = 1" by blast
  have "is_resample (Call_resample_hyps_3 ex_map 1 [ex_hyp] :: nat pf_call)" by simp
  from resample_flips_current_set[OF u(1) this] c
  have 3: "current_set u = 1
     \<and> hypothesis_cloud ex_map (sets ex_pf (current_set ex_pf)) (sets u (current_set ex_pf))"
    by simp
  from c 1 2 3 p q u show ?thesis by blast
qed

section \<open>The budget of hypothesis-guided injection\<close>

lemma sdiv_nonneg:
  assumes "0 \<le> a" and "0 < b"
  shows "a sdiv b = a div (b :: int)"
  using assms by (cases "a = 0") (simp_all add: signed_divide_int_def)

lemma nat_sdiv:
  assumes "0 < b"
  shows "nat (a sdiv b) = nat (a div (b :: int))"
proof (cases "0 \<le> a")
  case True
  then show ?thesis using assms by (simp add: sdiv_nonneg)
next
  case False
  then have "a div b < 0" using assms by (simp add: div_neg_pos_less0)
  moreover have "a sdiv b \<le> 0"
    using False assms by (simp add: signed_divide_int_def sgn_if pos_imp_zdiv_nonneg_iff)
  ultimately show ?thesis by simp
qed

lemma hyps_attempts_draws:
  assumes "for_each xs (hyps_attempt E mp hyps j) (sb, tw, r) = Done (sb', tw', r')"
  shows "map pose (live_samples sb')
           = map pose (live_samples sb)
             @ filter (free_cell mp) (fst (hyp_draws E (hyps ! j) (length xs) r))
       \<and> r' = snd (hyp_draws E (hyps ! j) (length xs) r)"
  using assms
proof (induction xs arbitrary: sb tw r)
  case Nil
  then show ?case by simp
next
  case (Cons i xs)
  obtain tmp r1 where d: "draw_hyp E (hyps ! j) r = (tmp, r1)"
    by (cases "draw_hyp E (hyps ! j) r") auto
  obtain ps r2 where h: "hyp_draws E (hyps ! j) (length xs) r1 = (ps, r2)"
    by (cases "hyp_draws E (hyps ! j) (length xs) r1") auto
  from Cons.prems obtain t where
    t: "hyps_attempt E mp hyps j i (sb, tw, r) = Done t"
    and l: "for_each xs (hyps_attempt E mp hyps j) t = Done (sb', tw', r')"
    by (auto simp: bind_eq_Done)
  show ?case
  proof (cases "free_cell mp tmp")
    case False
    with t d have "t = (sb, tw, r1)" by (auto simp: hyps_attempt_def split: if_splits)
    with Cons.IH[of sb tw r1] l h d False show ?thesis by simp
  next
    case True
    with t d obtain sb1 where a: "add_sample E sb tmp 1 = Done sb1" and "t = (sb1, tw + 1, r1)"
      by (auto simp: hyps_attempt_def bind_eq_Done split: if_splits)
    with Cons.IH[of sb1 "tw + 1" r1] l h d True add_sample_live[OF a] show ?thesis by simp
  qed
qed

lemma hyps_inject_draws:
  assumes "for_each js (\<lambda>j. for_each [0..<n] (hyps_attempt E mp hyps j)) (sb, tw, r)
             = Done (sb', tw', r')"
  shows "map pose (live_samples sb')
           = map pose (live_samples sb) @ filter (free_cell mp) (hyps_candidates E hyps js n r)"
  using assms
proof (induction js arbitrary: sb tw r)
  case Nil
  then show ?case by simp
next
  case (Cons j js)
  from Cons.prems obtain sb1 tw1 r1 where
    a: "for_each [0..<n] (hyps_attempt E mp hyps j) (sb, tw, r) = Done (sb1, tw1, r1)"
    and l: "for_each js (\<lambda>j. for_each [0..<n] (hyps_attempt E mp hyps j)) (sb1, tw1, r1)
              = Done (sb', tw', r')"
    by (auto simp: bind_eq_Done)
  obtain ps r2 where h: "hyp_draws E (hyps ! j) n r = (ps, r2)"
    by (cases "hyp_draws E (hyps ! j) n r") auto
  from hyps_attempts_draws[OF a] h
  have "map pose (live_samples sb1) = map pose (live_samples sb) @ filter (free_cell mp) ps"
    and "r1 = r2" by simp_all
  with Cons.IH[OF l] h show ?case by simp
qed

lemma resample_loop_bound:
  assumes "resample_loop E pf set_a rl n st = Done st'"
  shows "sample_count (fst st') \<le> max (sample_count (fst st)) n"
  using assms
proof (induction E pf set_a rl n st rule: resample_loop.induct)
  case (1 E pf set_a rl n st)
  show ?case
  proof (cases "sample_count (fst st) < n")
    case False
    then show ?thesis using "1.prems" by (simp add: resample_loop.simps)
  next
    case True
    with "1.prems"(1) obtain t where t: "resample_draw E set_a rl st = Done t"
      by (auto simp: resample_loop.simps[of E pf set_a rl n st] split: outcome.splits)
    note c = resample_draw_count[OF t]
    show ?thesis
    proof (cases "sample_count (fst t) > pf_resample_limit pf (leaf_count E (kdtree (fst t)))")
      case True
      then have "st' = t" using "1.prems"(1) \<open>sample_count (fst st) < n\<close> t
        by (simp add: resample_loop.simps[of E pf set_a rl n st])
      then show ?thesis using c \<open>sample_count (fst st) < n\<close> by simp
    next
      case False
      then have "resample_loop E pf set_a rl n t = Done st'"
        using "1.prems"(1) \<open>sample_count (fst st) < n\<close> t
        by (simp add: resample_loop.simps[of E pf set_a rl n st])
      from "1.IH"[OF \<open>sample_count (fst st) < n\<close> t False this]
      show ?thesis using c \<open>sample_count (fst st) < n\<close> by simp
    qed
  qed
qed

lemma resample_from_bound:
  assumes "resample_from E pf set_a n r = Done st'"
  shows "sample_count (fst st') \<le> max 0 n"
  using resample_loop_bound[OF assms[unfolded resample_from_def Let_def]] by simp

lemma hyps_candidates_length:
  "length (hyps_candidates E hyps js n r) = length js * n"
proof -
  have d: "length (fst (hyp_draws E h n r)) = n" for h r
  proof (induction n arbitrary: r)
    case 0
    then show ?case by simp
  next
    case (Suc n)
    obtain p r1 where a: "draw_hyp E h r = (p, r1)" by (cases "draw_hyp E h r") auto
    obtain ps r2 where b: "hyp_draws E h n r1 = (ps, r2)" by (cases "hyp_draws E h n r1") auto
    from Suc[of r1] a b show ?case by simp
  qed
  show ?thesis
  proof (induction js arbitrary: r)
    case Nil
    then show ?case by simp
  next
    case (Cons j js)
    then show ?case using d[of "hyps ! j" r] by (auto split: prod.splits)
  qed
qed

lemma ex4_resample:
  "\<exists>sb. resample_from ex_extern ex_pf4 (cur ex_pf4)
           (max_samples ex_pf4 - overHead_samples ex_pf4) 0 = Done (sb, 2, 2)
      \<and> sample_count sb = 2 \<and> map pose (live_samples sb) = [ex_pose, ex_pose]"
  by (simp add: ex_pf4_def ex_set4_def ex_defs step_defs live_samples_def)

lemma ex4_hyps:
  "\<exists>pf'. pf_update_resample_hyps ex_extern ex_pf4 ex_map 2 [ex_hyp, ex_far_hyp] 5 0 = Done pf'"
  by (simp add: pf_update_resample_hyps_def hyps_nNewSample_def hyps_inject_def hyps_attempt_def
        ex_pf4_def ex_set4_def ex_far_hyp_def ex_defs step_defs map_defs signed_divide_int_def)

lemma ex4_candidates:
  "hyps_candidates ex_extern [ex_hyp, ex_far_hyp] [0..<2] 1 2 = [pf_vector_zero, ex_pose]"
  by (simp add: ex_far_hyp_def ex_defs map_defs upt_conv_Cons Let_def)

lemma ex_hyps_runs:
  "(\<exists>pf'. pf_update_resample_hyps ex_extern ex_pf ex_map 1 [ex_hyp] 0 0 = Done pf'
       \<and> sample_count (cur pf') = 2)
   \<and> (\<exists>pf'. pf_update_resample_hyps ex_extern ex_pf ex_map 1 [ex_hyp] 5 0 = Done pf'
       \<and> sample_count (cur pf') = 3)"
  by (simp add: pf_update_resample_hyps_def hyps_nNewSample_def hyps_inject_def hyps_attempt_def
        ex_defs step_defs map_defs signed_divide_int_def)

text \<open>C8, as stated, fails because the budget is first capped by the argument
  \<open>nParticle\<close>: on the example filter the resampling phase leaves 2 samples,
  \<open>max_samples\<close> is 3 and the one hypothesis draws in a free cell, so that the stated
  budget \<open>(3 - 2) / 1 = 1\<close> would add a sample; with \<open>nParticle = 0\<close> the operation
  returns 2 samples, with \<open>nParticle = 5\<close> it returns 3.\<close>

theorem hyps_budget_depends_on_nParticle:
  "(max_samples ex_pf - 2) div 1 = 1
   \<and> (\<exists>sb tw r1. resample_from ex_extern ex_pf (cur ex_pf)
                    (max_samples ex_pf - overHead_samples ex_pf) 0 = Done (sb, tw, r1)
         \<and> sample_count sb = 2)
   \<and> (\<forall>r. free_cell ex_map (fst (draw_hyp ex_extern ex_hyp r)))
   \<and> (\<exists>pf'. pf_update_resample_hyps ex_extern ex_pf ex_map 1 [ex_hyp] 0 0 = Done pf'
       \<and> sample_count (cur pf') = 2)
   \<and> (\<exists>pf'. pf_update_resample_hyps ex_extern ex_pf ex_map 1 [ex_hyp] 5 0 = Done pf'
       \<and> sample_count (cur pf') = 3)"
proof -
  have a: "(max_samples ex_pf - 2) div 1 = 1" by (simp add: ex_pf_def)
  have b: "\<exists>sb tw r1. resample_from ex_extern ex_pf (cur ex_pf)
                    (max_samples ex_pf - overHead_samples ex_pf) 0 = Done (sb, tw, r1)
         \<and> sample_count sb = 2"
    by (simp add: ex_defs step_defs)
  have c: "\<forall>r. free_cell ex_map (fst (draw_hyp ex_extern ex_hyp r))"
    by (simp add: ex_defs map_defs Let_def)
  from a b c ex_hyps_runs show ?thesis by simp
qed

text \<open>C8 (amended). In \<open>pf_update_resample_hyps\<close> with \<open>h \<ge> 1\<close> hypotheses, the
  resampling phase leaves \<open>n_b\<close> samples in the scratch set, with
  \<open>0 \<le> n_b \<le> max (0, max_samples - overHead_samples)\<close>, and the samples of the set the
  operation returns are these followed by the accepted ones among the candidates drawn,
  in order, around hypothesis 0, hypothesis 1, ...: exactly
  \<open>\<lfloor>min (nParticle, max_samples - n_b) / h\<rfloor>\<close> candidates for each hypothesis, and none
  if that number is negative.\<close>

theorem hyps_budget:
  assumes run: "pf_update_resample_hyps E pf mp nHyp hyps nParticle r = Done pf'"
    and h: "0 < nHyp"
  shows "\<exists>set_b total_w r1.
           resample_from E pf (cur pf) (max_samples pf - overHead_samples pf) r
             = Done (set_b, total_w, r1)
         \<and> 0 \<le> sample_count set_b
         \<and> sample_count set_b \<le> max 0 (max_samples pf - overHead_samples pf)
         \<and> map pose (live_samples (cur pf'))
             = map pose (live_samples set_b)
               @ filter (free_cell mp)
                   (hyps_candidates E hyps [0..<nat nHyp]
                      (nat (min nParticle (max_samples pf - sample_count set_b) div nHyp)) r1)
         \<and> length (hyps_candidates E hyps [0..<nat nHyp]
                      (nat (min nParticle (max_samples pf - sample_count set_b) div nHyp)) r1)
             = nat nHyp * nat (min nParticle (max_samples pf - sample_count set_b) div nHyp)"
proof -
  from run obtain sb tw r1 nNew sb' tw' r' where
    a: "resample_from E pf (cur pf) (max_samples pf - overHead_samples pf) r = Done (sb, tw, r1)"
    and n: "hyps_nNewSample pf sb nHyp nParticle = Done nNew"
    and i: "for_each [0..<nat nHyp] (\<lambda>j. for_each [0..<nat nNew] (hyps_attempt E mp hyps j))
              (sb, tw, r1) = Done (sb', tw', r')"
    and f: "finish_resample E pf sb' tw' = Done pf'"
    by (auto simp: pf_update_resample_hyps_def hyps_inject_def bind_eq_Done cur_def)
  from resample_from_unit[OF a] have c0: "0 \<le> sample_count sb"
    by (simp add: unit_state_def unit_weights_def)
  from n h have "nNew = min nParticle (max_samples pf - sample_count sb) sdiv nHyp"
    by (auto simp: hyps_nNewSample_def Let_def min_def split: if_splits)
  then have v: "nat nNew = nat (min nParticle (max_samples pf - sample_count sb) div nHyp)"
    using nat_sdiv[OF h] by simp
  from finish_resample_cur[OF f] obtain s1 where
    nw: "normalize_weights sb' tw' = Done s1" and cl: "pf_cluster_stats E s1 = Done (cur pf')"
    by blast
  have "live_samples (cur pf') = live_samples s1"
    using pf_cluster_stats_frame[OF cl] by (simp add: live_samples_def)
  moreover have "map pose (live_samples s1) = map pose (live_samples sb')"
    using normalize_weights_poses[OF nw]
    by (intro nth_equalityI) (auto simp: live_samples_def)
  ultimately have "map pose (live_samples (cur pf'))
      = map pose (live_samples sb) @ filter (free_cell mp) (hyps_candidates E hyps [0..<nat nHyp] (nat nNew) r1)"
    using hyps_inject_draws[OF i] by simp
  with a c0 resample_from_bound[OF a] show ?thesis
    by (auto simp: hyps_candidates_length v)
qed

theorem hyps_budget_witness:
  "0 < (2::int)
   \<and> min 5 (max_samples ex_pf4 - 2) div 2 = 1
   \<and> (\<exists>pf'. pf_update_resample_hyps ex_extern ex_pf4 ex_map 2 [ex_hyp, ex_far_hyp] 5 0 = Done pf'
        \<and> map pose (live_samples (cur pf'))
            = [ex_pose, ex_pose]
              @ filter (free_cell ex_map) (hyps_candidates ex_extern [ex_hyp, ex_far_hyp] [0..<2] 1 2)
        \<and> hyps_candidates ex_extern [ex_hyp, ex_far_hyp] [0..<2] 1 2 = [pf_vector_zero, ex_pose]
        \<and> map pose (live_samples (cur pf')) = [ex_pose, ex_pose, pf_vector_zero])"
proof -
  from ex4_hyps obtain p where
    p: "pf_update_resample_hyps ex_extern ex_pf4 ex_map 2 [ex_hyp, ex_far_hyp] 5 0 = Done p"
    by blast
  from hyps_budget[OF p] obtain set_b tw r1 where
    a: "resample_from ex_extern ex_pf4 (cur ex_pf4)
          (max_samples ex_pf4 - overHead_samples ex_pf4) 0 = Done (set_b, tw, r1)"
    and m: "map pose (live_samples (cur p))
             = map pose (live_samples set_b)
               @ filter (free_cell ex_map)
                   (hyps_candidates ex_extern [ex_hyp, ex_far_hyp] [0..<nat 2]
                      (nat (min 5 (max_samples ex_pf4 - sample_count set_b) div 2)) r1)"
    by auto
  from ex4_resample a have b: "sample_count set_b = 2" "r1 = 2"
    "map pose (live_samples set_b) = [ex_pose, ex_pose]" by auto
  have v: "min 5 (max_samples ex_pf4 - 2) div 2 = (1::int)" by (simp add: ex_pf4_def ex_pf_def)
  have f: "filter (free_cell ex_map) [pf_vector_zero, ex_pose] = [pf_vector_zero]"
    by (simp add: ex_defs map_defs)
  have n: "nat (min 5 (max_samples ex_pf4 - sample_count set_b) div 2) = 1"
    using v b by simp
  from m b have "map pose (live_samples (cur p))
      = [ex_pose, ex_pose]
        @ filter (free_cell ex_map) (hyps_candidates ex_extern [ex_hyp, ex_far_hyp] [0..<2] 1 2)"
    unfolding n by simp
  with p v f ex4_candidates show ?thesis by auto
qed

end
